theory Spec2Isabelle
  imports Main "HOL-Library.AList" "HOL-Library.Multiset" "HOL-Library.Sublist"
begin

section \<open>godoc/parser.go: the source sanitizer\<close>

text \<open>
  Go byte slices and strings are modelled as \<open>string\<close> (a list of bytes).
  \<^verbatim>\<open>var linePrefix = []byte("//line ")\<close>
\<close>

definition linePrefix :: string where
  "linePrefix = ''//line ''"

text \<open>
  \<^verbatim>\<open>bytes.Index(s, sep)\<close> of the Go library: the index of the first instance of
  \<open>sep\<close> in \<open>s\<close>; Go's \<open>-1\<close> is \<open>None\<close>. \<^verbatim>\<open>strings.Contains\<close> is
  \<open>Index >= 0\<close>.
\<close>

fun bytes_Index :: "string \<Rightarrow> string \<Rightarrow> nat option" where
  "bytes_Index [] sep = (if sep = [] then Some 0 else None)"
| "bytes_Index (c # cs) sep =
     (if prefix sep (c # cs) then Some 0 else map_option Suc (bytes_Index cs sep))"

definition strings_Contains :: "string \<Rightarrow> string \<Rightarrow> bool" where
  "strings_Contains s substr = (bytes_Index s substr \<noteq> None)"

text \<open>
  The inner loop of \<open>replaceLinePrefixCommentsWithBlankLine\<close>, on the whole buffer
  \<open>buf\<close> and an absolute index \<open>i\<close>:
  \<^verbatim>\<open>for i < len(src) && src[i] != '\n' { src[i] = ' '; i++ }\<close>
  It returns the buffer and the index where it stopped.
\<close>

function blankLine :: "string \<Rightarrow> nat \<Rightarrow> string \<times> nat" where
  "blankLine buf i =
     (if i < length buf \<and> buf ! i \<noteq> CHR 0x0A
      then blankLine (buf[i := CHR '' '']) (Suc i)
      else (buf, i))"
  by pat_completeness auto
termination
  by (relation "measure (\<lambda>(buf, i). length buf - i)") auto

text \<open>
  The outer loop. The Go code re-slices \<open>src = src[i:]\<close>; the slice shares the
  caller's array, so the model keeps the whole buffer \<open>buf\<close> and the offset \<open>off\<close>
  at which the current slice starts: \<open>src\<close> is \<open>drop off buf\<close>, the slice index
  \<open>i\<close> is the absolute index \<open>off + i\<close>, and \<open>src[i-1]\<close> is \<open>buf ! (off + i - 1)\<close>.
  \<^verbatim>\<open>
  for {
    i := bytes.Index(src, linePrefix)
    if i < 0 { break }
    if i == 0 || src[i-1] == '\n' {
      for i < len(src) && src[i] != '\n' { src[i] = ' '; i++ }
    } else {
      i += len(linePrefix)
    }
    src = src[i:]
  }\<close>
\<close>

function sanitizeFrom :: "string \<Rightarrow> nat \<Rightarrow> string" where
  "sanitizeFrom buf off =
     (case bytes_Index (drop off buf) linePrefix of
        None \<Rightarrow> buf
      | Some i \<Rightarrow>
          if i = 0 \<or> buf ! (off + i - 1) = CHR 0x0A
          then (case blankLine buf (off + i) of (buf', j) \<Rightarrow> sanitizeFrom buf' j)
          else sanitizeFrom buf (off + i + length linePrefix))"
  by pat_completeness auto

definition replaceLinePrefixCommentsWithBlankLine :: "string \<Rightarrow> string" where
  "replaceLinePrefixCommentsWithBlankLine src = sanitizeFrom src 0"

section \<open>Syntax trees, errors and the external capabilities\<close>

text \<open>
  The part of \<open>go/ast\<close> that the code reads. A file is its comment groups (each a
  list of comment texts, \<open>c.List[k].Text\<close>) and its top-level declarations. Of a
  function declaration the code reads \<open>Name\<close> and \<open>Recv\<close>: \<open>None\<close> is the nil
  receiver, \<open>Some fl\<close> the receiver list \<open>Recv.List\<close>, each entry standing for the
  \<open>Type\<close> expression of its field. Expressions are opaque (the type variable \<open>'e\<close>):
  only \<open>format.Node\<close> looks at them. Of a general declaration the code reads the
  specs: type specs and value specs (constants and variables); an import spec matches
  neither case of the type switch.
\<close>

datatype spec = ImportSpec | TypeSpec string | ValueSpec "string list"

record 'e funcDecl =
  Name :: string
  Recv :: "'e list option"

datatype 'e decl = BadDecl | FuncDecl "'e funcDecl" | GenDecl "spec list"

record 'e ast_File =
  Comments :: "string list list"
  Decls :: "'e decl list"

text \<open>
  Errors as values. \<open>ReadError\<close> and \<open>ParseError\<close> are what \<open>vfs.ReadFile\<close> and
  \<open>parser.ParseFile\<close> return; \<open>Errorf err abspath fileNames\<close> is the value of
  \<^verbatim>\<open>fmt.Errorf("%s in %q with files: %v", err.Error(), abspath, fileNames)\<close>, kept
  with its three arguments; \<open>IndexOutOfRange\<close> is the run-time panic of an index
  expression out of range.
\<close>

datatype error =
    ReadError string
  | ParseError string
  | Errorf error string "string list"
  | IndexOutOfRange

text \<open>
  What the code calls and this file does not define: the file system behind the corpus
  (\<open>vfs.ReadFile(c.fs, filename)\<close>), the Go parser (\<open>parser.ParseFile\<close>, by file name
  and source), \<open>buildutil.TagsFlag.Set\<close> (the tokens it leaves in the flag; its error is
  dropped by the code), \<open>format.Node\<close> on a receiver type, \<open>path.Join\<close> of two
  elements and \<open>filepath.Base\<close>. Every theorem below holds for any choice of them.
\<close>

record 'e env =
  vfs_ReadFile :: "string \<Rightarrow> error + string"
  parser_ParseFile :: "string \<Rightarrow> string \<Rightarrow> error + 'e ast_File"
  tagsFlag_Set :: "string \<Rightarrow> string list"
  format_Node :: "'e \<Rightarrow> error + string"
  path_Join :: "string \<Rightarrow> string \<Rightarrow> string"
  filepath_Base :: "string \<Rightarrow> string"

text \<open>
  Go maps whose iteration the code depends on are association lists with distinct keys,
  assigned with \<open>AList.update\<close>. The order in which a \<open>range\<close> statement visits a map
  is not specified by Go and differs between runs: \<open>go_range cs m\<close> visits \<open>m\<close> in the
  order picked by the choices \<open>cs\<close> (the next entry visited is number \<open>c mod n\<close> of
  the \<open>n\<close> entries not yet visited). A run is described by the choices of its three
  \<open>range\<close> statements over maps: over \<open>files\<close>, over \<open>tagToFiles\<close>, and over the
  \<open>astMap\<close> of each tag.
\<close>

fun go_range :: "nat list \<Rightarrow> 'a list \<Rightarrow> 'a list" where
  "go_range cs [] = []"
| "go_range [] (x # xs) = x # xs"
| "go_range (c # cs) (x # xs) =
     (let i = c mod length (x # xs)
      in ((x # xs) ! i) # go_range cs (take i (x # xs) @ drop (Suc i) (x # xs)))"

record sched =
  filesOrder :: "nat list"
  tagsOrder :: "nat list"
  astOrder :: "string \<Rightarrow> nat list"

section \<open>findBuildTags\<close>

text \<open>
  \<^verbatim>\<open>
  for _, abt := range allowedBuildTags {
    if t == abt { tags = append(tags, t) }
  }\<close>
\<close>

fun matchAllowed :: "string \<Rightarrow> string list \<Rightarrow> string list \<Rightarrow> string list" where
  "matchAllowed t [] tags = tags"
| "matchAllowed t (abt # abts) tags =
     matchAllowed t abts (if t = abt then tags @ [t] else tags)"

text \<open>\<^verbatim>\<open>for _, t := range tf { ... }\<close>\<close>

fun scanTokens :: "string list \<Rightarrow> string list \<Rightarrow> string list \<Rightarrow> string list" where
  "scanTokens [] allowedBuildTags tags = tags"
| "scanTokens (t # ts) allowedBuildTags tags =
     scanTokens ts allowedBuildTags (matchAllowed t allowedBuildTags tags)"

text \<open>
  \<^verbatim>\<open>
  for _, l := range c.List {
    if !strings.Contains(l.Text, "+build") { continue }
    var tf buildutil.TagsFlag
    _ = tf.Set(l.Text)
    for _, t := range tf { ... }
  }\<close>
\<close>

fun scanLines :: "'e env \<Rightarrow> string list \<Rightarrow> string list \<Rightarrow> string list \<Rightarrow> string list" where
  "scanLines E [] allowedBuildTags tags = tags"
| "scanLines E (l # ls) allowedBuildTags tags =
     scanLines E ls allowedBuildTags
       (if \<not> strings_Contains l ''+build'' then tags
        else scanTokens (tagsFlag_Set E l) allowedBuildTags tags)"

text \<open>\<^verbatim>\<open>for _, c := range file.Comments { ... }\<close>\<close>

fun scanGroups :: "'e env \<Rightarrow> string list list \<Rightarrow> string list \<Rightarrow> string list \<Rightarrow> string list" where
  "scanGroups E [] allowedBuildTags tags = tags"
| "scanGroups E (c # cs) allowedBuildTags tags =
     scanGroups E cs allowedBuildTags (scanLines E c allowedBuildTags tags)"

definition findBuildTags :: "'e env \<Rightarrow> 'e ast_File \<Rightarrow> string list \<Rightarrow> string list \<times> bool" where
  "findBuildTags E file allowedBuildTags =
     (let tags = scanGroups E (Comments file) allowedBuildTags []
      in (tags, length tags > 0))"

section \<open>getReceiverType, parseFile, parseFiles\<close>

text \<open>
  \<^verbatim>\<open>
  if decl.Recv == nil { return "" }
  var buf strings.Builder
  if err := format.Node(&buf, fset, decl.Recv.List[0].Type); err != nil { return "" }
  return buf.String()\<close>
  The index expression \<open>List[0]\<close> panics on an empty list.
\<close>

definition getReceiverType :: "'e env \<Rightarrow> 'e funcDecl \<Rightarrow> error + string" where
  "getReceiverType E decl =
     (case Recv decl of
        None \<Rightarrow> Inr ''''
      | Some fl \<Rightarrow>
          (case fl of
             [] \<Rightarrow> Inl IndexOutOfRange
           | f # _ \<Rightarrow>
               (case format_Node E f of
                  Inl err \<Rightarrow> Inr ''''
                | Inr s \<Rightarrow> Inr s)))"

definition parseFile :: "'e env \<Rightarrow> string \<Rightarrow> error + 'e ast_File" where
  "parseFile E filename =
     (case vfs_ReadFile E filename of
        Inl err \<Rightarrow> Inl err
      | Inr src \<Rightarrow> parser_ParseFile E filename (replaceLinePrefixCommentsWithBlankLine src))"

text \<open>
  \<^verbatim>\<open>
  files := make(map[string]*ast.File)
  for _, f := range localnames {
    absname := pathpkg.Join(abspath, f)
    file, err := c.parseFile(fset, absname, parser.ParseComments)
    if err != nil { return nil, err }
    files[pathpkg.Join(relpath, f)] = file
  }
  return files, nil\<close>
\<close>

fun parseFilesFrom ::
  "'e env \<Rightarrow> string \<Rightarrow> string \<Rightarrow> string list \<Rightarrow> (string \<times> 'e ast_File) list
     \<Rightarrow> error + (string \<times> 'e ast_File) list" where
  "parseFilesFrom E relpath abspath [] files = Inr files"
| "parseFilesFrom E relpath abspath (f # localnames) files =
     (case parseFile E (path_Join E abspath f) of
        Inl err \<Rightarrow> Inl err
      | Inr file \<Rightarrow>
          parseFilesFrom E relpath abspath localnames
            (AList.update (path_Join E relpath f) file files))"

definition parseFiles ::
  "'e env \<Rightarrow> string \<Rightarrow> string \<Rightarrow> string list \<Rightarrow> error + (string \<times> 'e ast_File) list" where
  "parseFiles E relpath abspath localnames = parseFilesFrom E relpath abspath localnames []"

section \<open>mapIdentifierToBuildTag\<close>

text \<open>
  \<^verbatim>\<open>
  for _, bt := range bts {
    f := tagToFiles[bt]
    f = append(f, filepath.Base(fName))
    tagToFiles[bt] = f
  }\<close>
  A key that is absent reads as the nil slice.
\<close>

definition filesOf :: "(string \<times> string list) list \<Rightarrow> string \<Rightarrow> string list" where
  "filesOf tagToFiles bt = (case map_of tagToFiles bt of None \<Rightarrow> [] | Some f \<Rightarrow> f)"

fun addFile ::
  "string \<Rightarrow> string list \<Rightarrow> (string \<times> string list) list \<Rightarrow> (string \<times> string list) list" where
  "addFile b [] tagToFiles = tagToFiles"
| "addFile b (bt # bts) tagToFiles =
     addFile b bts (AList.update bt (filesOf tagToFiles bt @ [b]) tagToFiles)"

text \<open>
  \<^verbatim>\<open>
  for fName, fAst := range files {
    if bts, ok := findBuildTags(fAst, allowedBuildTags); ok { ... }
  }\<close>
  over the entries of \<open>files\<close> in the order of this run.
\<close>

fun classify ::
  "'e env \<Rightarrow> string list \<Rightarrow> (string \<times> 'e ast_File) list \<Rightarrow> (string \<times> string list) list
     \<Rightarrow> (string \<times> string list) list" where
  "classify E allowedBuildTags [] tagToFiles = tagToFiles"
| "classify E allowedBuildTags ((fName, fAst) # rest) tagToFiles =
     classify E allowedBuildTags rest
       (case findBuildTags E fAst allowedBuildTags of
          (bts, ok) \<Rightarrow>
            if ok then addFile (filepath_Base E fName) bts tagToFiles else tagToFiles)"

text \<open>
  The closure \<open>appendName\<close>, with the map \<open>typesWithTags\<close> it updates passed in and
  returned. A key that is absent reads as the empty string.
  \<^verbatim>\<open>
  tns := typesWithTags[key]
  if tns == "" { tns = tagName } else { tns = tns + ", " + tagName }
  typesWithTags[key] = tns\<close>
\<close>

definition appendName ::
  "string \<Rightarrow> string \<Rightarrow> string \<Rightarrow> (string \<rightharpoonup> string) \<Rightarrow> (string \<rightharpoonup> string)" where
  "appendName typeName receiverType tagName typesWithTags =
     (let key = (if receiverType \<noteq> '''' then receiverType @ ''.'' else '''') @ typeName;
          tns = (case typesWithTags key of None \<Rightarrow> '''' | Some s \<Rightarrow> s);
          tns' = (if tns = '''' then tagName else tns @ '', '' @ tagName)
      in typesWithTags(key \<mapsto> tns'))"

text \<open>\<^verbatim>\<open>for _, id := range spec.Names { appendName(id.Name, "", tagName) }\<close>\<close>

fun walkNames :: "string \<Rightarrow> string list \<Rightarrow> (string \<rightharpoonup> string) \<Rightarrow> (string \<rightharpoonup> string)" where
  "walkNames tagName [] typesWithTags = typesWithTags"
| "walkNames tagName (n # ns) typesWithTags =
     walkNames tagName ns (appendName n '''' tagName typesWithTags)"

text \<open>\<^verbatim>\<open>for _, spec := range decl.Specs { switch spec := spec.(type) { ... } }\<close>\<close>

fun walkSpecs :: "string \<Rightarrow> spec list \<Rightarrow> (string \<rightharpoonup> string) \<Rightarrow> (string \<rightharpoonup> string)" where
  "walkSpecs tagName [] typesWithTags = typesWithTags"
| "walkSpecs tagName (s # ss) typesWithTags =
     walkSpecs tagName ss
       (case s of
          TypeSpec n \<Rightarrow> appendName n '''' tagName typesWithTags
        | ValueSpec ns \<Rightarrow> walkNames tagName ns typesWithTags
        | ImportSpec \<Rightarrow> typesWithTags)"

text \<open>The body of the loop over \<open>fileAst.Decls\<close>: the type switch on one declaration.\<close>

definition walkDecl ::
  "'e env \<Rightarrow> string \<Rightarrow> 'e decl \<Rightarrow> (string \<rightharpoonup> string) \<Rightarrow> error + (string \<rightharpoonup> string)" where
  "walkDecl E tagName d typesWithTags =
     (case d of
        FuncDecl fd \<Rightarrow>
          (case getReceiverType E fd of
             Inl p \<Rightarrow> Inl p
           | Inr receiverType \<Rightarrow> Inr (appendName (Name fd) receiverType tagName typesWithTags))
      | GenDecl specs \<Rightarrow> Inr (walkSpecs tagName specs typesWithTags)
      | BadDecl \<Rightarrow> Inr typesWithTags)"

fun walkDecls ::
  "'e env \<Rightarrow> string \<Rightarrow> 'e decl list \<Rightarrow> (string \<rightharpoonup> string) \<Rightarrow> error + (string \<rightharpoonup> string)" where
  "walkDecls E tagName [] typesWithTags = Inr typesWithTags"
| "walkDecls E tagName (d # ds) typesWithTags =
     (case walkDecl E tagName d typesWithTags of
        Inl p \<Rightarrow> Inl p
      | Inr m \<Rightarrow> walkDecls E tagName ds m)"

text \<open>\<^verbatim>\<open>for _, fileAst := range astMap { ... }\<close>, over the entries in the order of this run.\<close>

fun walkFiles ::
  "'e env \<Rightarrow> string \<Rightarrow> (string \<times> 'e ast_File) list \<Rightarrow> (string \<rightharpoonup> string)
     \<Rightarrow> error + (string \<rightharpoonup> string)" where
  "walkFiles E tagName [] typesWithTags = Inr typesWithTags"
| "walkFiles E tagName ((fName, fileAst) # rest) typesWithTags =
     (case walkDecls E tagName (Decls fileAst) typesWithTags of
        Inl p \<Rightarrow> Inl p
      | Inr m \<Rightarrow> walkFiles E tagName rest m)"

text \<open>
  \<^verbatim>\<open>
  for tagName, fileNames := range tagToFiles {
    fset := token.NewFileSet()
    astMap, err := c.parseFiles(fset, relpath, abspath, fileNames)
    if err != nil {
      return nil, fmt.Errorf("%s in %q with files: %v", err.Error(), abspath, fileNames)
    }
    for _, fileAst := range astMap { ... }
  }\<close>
  over the entries of \<open>tagToFiles\<close> in the order of this run.
\<close>

fun perTag ::
  "'e env \<Rightarrow> sched \<Rightarrow> string \<Rightarrow> string \<Rightarrow> (string \<times> string list) list
     \<Rightarrow> (string \<rightharpoonup> string) \<Rightarrow> error + (string \<rightharpoonup> string)" where
  "perTag E S relpath abspath [] typesWithTags = Inr typesWithTags"
| "perTag E S relpath abspath ((tagName, fileNames) # rest) typesWithTags =
     (case parseFiles E relpath abspath fileNames of
        Inl err \<Rightarrow> Inl (Errorf err abspath fileNames)
      | Inr astMap \<Rightarrow>
          (case walkFiles E tagName (go_range (astOrder S tagName) astMap) typesWithTags of
             Inl p \<Rightarrow> Inl p
           | Inr m \<Rightarrow> perTag E S relpath abspath rest m))"

text \<open>
  The first loop of the function, which builds \<open>tagToFiles\<close>, and the function
  itself; \<open>allowedBuildTags\<close> is \<open>ctxt.BuildTags\<close>, the only field of the build
  context the code reads.
\<close>

definition tagToFilesOf ::
  "'e env \<Rightarrow> sched \<Rightarrow> (string \<times> 'e ast_File) list \<Rightarrow> string list \<Rightarrow> (string \<times> string list) list" where
  "tagToFilesOf E S files allowedBuildTags =
     classify E allowedBuildTags (go_range (filesOrder S) files) []"

definition mapIdentifierToBuildTag ::
  "'e env \<Rightarrow> sched \<Rightarrow> (string \<times> 'e ast_File) list \<Rightarrow> string \<Rightarrow> string \<Rightarrow> string list
     \<Rightarrow> error + (string \<rightharpoonup> string)" where
  "mapIdentifierToBuildTag E S files relpath abspath allowedBuildTags =
     (let tagToFiles = tagToFilesOf E S files allowedBuildTags
      in if length tagToFiles = 0 then Inr Map.empty
         else perTag E S relpath abspath (go_range (tagsOrder S) tagToFiles) Map.empty)"

section \<open>The sanitizer as the documentation states it\<close>

text \<open>
  The comment of \<open>replaceLinePrefixCommentsWithBlankLine\<close> says that it "replaces
  source lines starting with \<open>//line \<close> with a blank line". Stated on lines:
  \<open>splitLines\<close> cuts the buffer at its newlines, a line that starts with the marker
  becomes as many spaces, and the lines are joined with newlines again.
\<close>

fun linesFrom :: "string \<Rightarrow> string \<Rightarrow> string list" where
  "linesFrom cur [] = [cur]"
| "linesFrom cur (c # cs) =
     (if c = CHR 0x0A then cur # linesFrom [] cs else linesFrom (cur @ [c]) cs)"

definition splitLines :: "string \<Rightarrow> string list" where
  "splitLines src = linesFrom [] src"

fun joinLines :: "string list \<Rightarrow> string" where
  "joinLines [] = []"
| "joinLines [l] = l"
| "joinLines (l # ls) = l @ CHR 0x0A # joinLines ls"

definition blankMarkedLines_spec :: "string \<Rightarrow> string" where
  "blankMarkedLines_spec src =
     joinLines
       (map (\<lambda>l. if prefix linePrefix l then replicate (length l) (CHR '' '') else l)
          (splitLines src))"

section \<open>An in-memory corpus, and the fixture of TestCorpus_ExtractBuildTags\<close>

text \<open>
  Modelled from the spec: \<open>buildutil.TagsFlag.Set\<close> is not among the sources; the spec
  has the text of a directive parsed "into space-separated raw tokens". \<open>spaceFields\<close>
  cuts a string at its spaces and drops the empty pieces.
\<close>

fun fieldsFrom :: "string \<Rightarrow> string \<Rightarrow> string list" where
  "fieldsFrom cur [] = (if cur = [] then [] else [cur])"
| "fieldsFrom cur (c # cs) =
     (if c = CHR '' ''
      then (if cur = [] then fieldsFrom [] cs else cur # fieldsFrom [] cs)
      else fieldsFrom (cur @ [c]) cs)"

definition spaceFields :: "string \<Rightarrow> string list" where
  "spaceFields s = fieldsFrom [] s"

text \<open>
  A corpus in memory, for evaluating the functions on concrete inputs: \<open>srcs\<close> maps a
  path to its bytes (a path that is absent cannot be read), \<open>trees\<close> maps a path to
  the tree the parser returns for it (a path that is absent does not parse). A receiver
  type is its own text; paths are joined with a slash (an empty first element is
  dropped, as \<open>path.Join\<close> does) and the base of a path is what follows its last
  slash.
\<close>

definition memEnv ::
  "(string \<times> string) list \<Rightarrow> (string \<times> string ast_File) list \<Rightarrow> string env" where
  "memEnv srcs trees =
     \<lparr> vfs_ReadFile = (\<lambda>p. case map_of srcs p of None \<Rightarrow> Inl (ReadError p) | Some s \<Rightarrow> Inr s),
       parser_ParseFile =
         (\<lambda>p src. case map_of trees p of None \<Rightarrow> Inl (ParseError p) | Some t \<Rightarrow> Inr t),
       tagsFlag_Set = spaceFields,
       format_Node = Inr,
       path_Join = (\<lambda>a b. if a = [] then b else a @ ''/'' @ b),
       filepath_Base = (\<lambda>p. rev (takeWhile (\<lambda>c. c \<noteq> CHR ''/'') (rev p))) \<rparr>"

text \<open>
  The three files of the test, as the Go parser reads them: \<open>bar.go\<close> has no build
  directive, \<open>xtag1.go\<close> has \<open>// +build xtag1\<close>, \<open>xtag2.go\<close> has
  \<open>// +build xtag2 xtag3\<close>. The bytes of the files are cut down to their first lines;
  the trees are those of the whole files.
\<close>

definition barGo :: "string ast_File" where
  "barGo =
     \<lparr> Comments = [[''// Package bar is an example.'']],
       Decls = [GenDecl [ValueSpec [''WunderBar'']], GenDecl [TypeSpec ''TrinkBar'']] \<rparr>"

definition xtag1Go :: "string ast_File" where
  "xtag1Go =
     \<lparr> Comments = [[''// +build xtag1''], [''// First function is first.''],
                   [''// unexported function is third.'']],
       Decls = [FuncDecl \<lparr> Name = ''First'', Recv = None \<rparr>,
                FuncDecl \<lparr> Name = ''unexported'', Recv = None \<rparr>,
                GenDecl [TypeSpec ''A''],
                FuncDecl \<lparr> Name = ''String'', Recv = Some [''A''] \<rparr>] \<rparr>"

definition xtag2Go :: "string ast_File" where
  "xtag2Go =
     \<lparr> Comments = [[''// +build xtag2 xtag3'']],
       Decls = [FuncDecl \<lparr> Name = ''NewCheersWithBeer'', Recv = None \<rparr>,
                GenDecl [ValueSpec [''TestConst'']]] \<rparr>"

definition testEnv :: "string env" where
  "testEnv =
     memEnv
       [(''/src/bar.go'', ''package bar''), (''/src/xtag1.go'', ''// +build xtag1''),
        (''/src/xtag2.go'', ''// +build xtag2 xtag3'')]
       [(''/src/bar.go'', barGo), (''/src/xtag1.go'', xtag1Go), (''/src/xtag2.go'', xtag2Go)]"

definition testFiles :: "(string \<times> string ast_File) list" where
  "testFiles = [(''bar.go'', barGo), (''xtag1.go'', xtag1Go), (''xtag2.go'', xtag2Go)]"

definition testTags :: "string list" where
  "testTags = [''xtag1'', ''xtag2'', ''xtag3'']"

text \<open>Two runs: one visits every map in the order it was filled, one visits
  \<open>tagToFiles\<close> from its last entry backwards.\<close>

definition inOrder :: sched where
  "inOrder = \<lparr> filesOrder = [], tagsOrder = [], astOrder = (\<lambda>_. []) \<rparr>"

definition tagsBackwards :: sched where
  "tagsBackwards = \<lparr> filesOrder = [], tagsOrder = [2, 1, 0], astOrder = (\<lambda>_. []) \<rparr>"

text \<open>
  What a caller reads from the result at one key, as the test does with
  \<open>tagMap[key]\<close> after its check of \<open>err\<close>: the error, or the entry of the key.
\<close>

definition tagsAt :: "error + (string \<rightharpoonup> string) \<Rightarrow> string \<Rightarrow> error + string option" where
  "tagsAt r key = (case r of Inl err \<Rightarrow> Inl err | Inr m \<Rightarrow> Inr (m key))"

section \<open>Notions used to state the claims\<close>

text \<open>
  The tokens of the directive lines of a file, in the order of the file: every comment
  line that contains \<open>+build\<close>, cut into tokens by \<open>TagsFlag.Set\<close>.
\<close>

definition directiveTokens :: "'e env \<Rightarrow> 'e ast_File \<Rightarrow> string list" where
  "directiveTokens E file =
     concat (map (tagsFlag_Set E)
       (filter (\<lambda>l. strings_Contains l ''+build'') (concat (Comments file))))"

text \<open>
  The file group of a tag, from the files in the order they are classified: the base
  name of a file, once for each time the tag is among the tags found in the file.
\<close>

definition groupOf ::
  "'e env \<Rightarrow> string list \<Rightarrow> (string \<times> 'e ast_File) list \<Rightarrow> string \<Rightarrow> string list" where
  "groupOf E allowed files tag =
     concat (map (\<lambda>(fName, fAst).
       replicate (count_list (fst (findBuildTags E fAst allowed)) tag) (filepath_Base E fName))
       files)"

text \<open>
  A list of tags as \<open>appendName\<close> strings it together, one tag after the other
  (\<open>joinTags\<close>), and the entry of a key that has collected the tags \<open>ts\<close>: none when
  there are no tags.
\<close>

definition addTag :: "string \<Rightarrow> string \<Rightarrow> string" where
  "addTag tns tagName = (if tns = '''' then tagName else tns @ '', '' @ tagName)"

definition joinTags :: "string list \<Rightarrow> string" where
  "joinTags ts = foldl addTag '''' ts"

definition entryOf :: "string list \<Rightarrow> string option" where
  "entryOf ts = (if ts = [] then None else Some (joinTags ts))"

text \<open>
  The keys that the walk forms for a declaration (one per call of \<open>appendName\<close>), for a
  file, and the number of times a key is formed in the trees that \<open>parseFiles\<close> loads
  for a file group. \<open>tagsOfKey\<close> lists, for the groups in the order they are visited,
  each tag as many times as the key is formed in its group.
\<close>

definition declKey :: "string \<Rightarrow> string \<Rightarrow> string" where
  "declKey receiverType typeName =
     (if receiverType \<noteq> '''' then receiverType @ ''.'' else '''') @ typeName"

fun specKeys :: "spec \<Rightarrow> string list" where
  "specKeys (TypeSpec n) = [n]"
| "specKeys (ValueSpec ns) = ns"
| "specKeys ImportSpec = []"

definition declKeys :: "'e env \<Rightarrow> 'e decl \<Rightarrow> string list" where
  "declKeys E d =
     (case d of
        FuncDecl fd \<Rightarrow>
          (case getReceiverType E fd of Inl p \<Rightarrow> [] | Inr r \<Rightarrow> [declKey r (Name fd)])
      | GenDecl specs \<Rightarrow> concat (map specKeys specs)
      | BadDecl \<Rightarrow> [])"

definition fileKeys :: "'e env \<Rightarrow> 'e ast_File \<Rightarrow> string list" where
  "fileKeys E f = concat (map (declKeys E) (Decls f))"

definition declCount :: "'e env \<Rightarrow> string \<Rightarrow> string \<Rightarrow> string list \<Rightarrow> string \<Rightarrow> nat" where
  "declCount E relpath abspath fileNames key =
     (case parseFiles E relpath abspath fileNames of
        Inl err \<Rightarrow> 0
      | Inr astMap \<Rightarrow> count_list (concat (map (\<lambda>(fName, fileAst). fileKeys E fileAst) astMap)) key)"

definition tagsOfKey ::
  "'e env \<Rightarrow> string \<Rightarrow> string \<Rightarrow> (string \<times> string list) list \<Rightarrow> string \<Rightarrow> string list" where
  "tagsOfKey E relpath abspath groups key =
     concat (map (\<lambda>(tagName, fileNames).
       replicate (declCount E relpath abspath fileNames key) tagName) groups)"

text \<open>
  Two more inputs. Two files of one package, both under \<open>// +build xtag1\<close>, each with
  a function \<open>init\<close> (Go allows any number of them). And two keys of the input map
  with different directories and the same base name.
\<close>

definition initGo :: "string ast_File" where
  "initGo =
     \<lparr> Comments = [[''// +build xtag1'']],
       Decls = [FuncDecl \<lparr> Name = ''init'', Recv = None \<rparr>] \<rparr>"

definition initEnv :: "string env" where
  "initEnv =
     memEnv
       [(''/src/a.go'', ''// +build xtag1''), (''/src/b.go'', ''// +build xtag1'')]
       [(''/src/a.go'', initGo), (''/src/b.go'', initGo)]"

definition initFiles :: "(string \<times> string ast_File) list" where
  "initFiles = [(''a.go'', initGo), (''b.go'', initGo)]"

definition sameBaseEnv :: "string env" where
  "sameBaseEnv = memEnv [(''/src/x.go'', ''// +build xtag1'')] [(''/src/x.go'', xtag1Go)]"

definition sameBaseFiles :: "(string \<times> string ast_File) list" where
  "sameBaseFiles = [(''a/x.go'', xtag1Go), (''b/x.go'', xtag1Go)]"

text \<open>
  A file under \<open>// +build xtag1\<close> with a method \<open>String\<close> on the receiver
  \<open>A\<close> and a function \<open>String\<close> without receiver, in a corpus where rendering a
  receiver type fails.
\<close>

definition stringGo :: "string ast_File" where
  "stringGo =
     \<lparr> Comments = [[''// +build xtag1'']],
       Decls = [FuncDecl \<lparr> Name = ''String'', Recv = Some [''A''] \<rparr>,
                FuncDecl \<lparr> Name = ''String'', Recv = None \<rparr>] \<rparr>"

definition noRenderEnv :: "string env" where
  "noRenderEnv =
     (memEnv [(''/src/s.go'', ''// +build xtag1'')] [(''/src/s.go'', stringGo)])
       \<lparr> format_Node := (\<lambda>e. Inl (ParseError e)) \<rparr>"

definition stringFiles :: "(string \<times> string ast_File) list" where
  "stringFiles = [(''s.go'', stringGo)]"

section \<open>Properties of the sanitizer\<close>

lemma bytes_Index_Some:
  "bytes_Index s sep = Some i \<Longrightarrow> prefix sep (drop i s) \<and> i + length sep \<le> length s"
proof (induction s arbitrary: i)
  case Nil
  then show ?case by (simp split: if_splits)
next
  case (Cons c cs)
  show ?case
  proof (cases "prefix sep (c # cs)")
    case True
    with Cons.prems show ?thesis by (auto dest: prefix_length_le)
  next
    case False
    with Cons.prems obtain j where "bytes_Index cs sep = Some j" "i = Suc j"
      by auto
    with Cons.IH [of j] show ?thesis by simp
  qed
qed

lemma blankLine_length: "blankLine buf i = (buf', j) \<Longrightarrow> length buf' = length buf"
  by (induction buf i rule: blankLine.induct) (simp split: if_splits)

lemma blankLine_index:
  "blankLine buf i = (buf', j) \<Longrightarrow> i \<le> j \<and> (i \<le> length buf \<longrightarrow> j \<le> length buf)"
  by (induction buf i rule: blankLine.induct) (fastforce split: if_splits)

lemma blankLine_advances:
  "blankLine buf i = (buf', j) \<Longrightarrow> i < length buf \<Longrightarrow> buf ! i \<noteq> CHR 0x0A \<Longrightarrow> i < j"
  using blankLine_index [of "buf[i := CHR '' '']" "Suc i" buf' j] by simp

lemma linePrefix_at:
  assumes "bytes_Index (drop off buf) linePrefix = Some i"
  shows "off + i + 7 \<le> length buf" and "buf ! (off + i) = CHR ''/''"
proof -
  from bytes_Index_Some [OF assms]
  have p: "prefix linePrefix (drop (off + i) buf)" and l: "i + 7 \<le> length buf - off"
    by (simp_all add: linePrefix_def add.commute)
  from l show "off + i + 7 \<le> length buf" by simp
  from p obtain zs where "drop (off + i) buf = CHR ''/'' # zs"
    by (auto simp: linePrefix_def prefix_def)
  then have "hd (drop (off + i) buf) = CHR ''/''" by simp
  moreover have "off + i < length buf" using l by simp
  ultimately show "buf ! (off + i) = CHR ''/''" by (simp add: hd_drop_conv_nth)
qed

lemma blankLine_measure:
  assumes "bytes_Index (drop off buf) linePrefix = Some i"
    and "blankLine buf (off + i) = (buf', j)"
  shows "length buf' - j < length buf - off"
proof -
  from linePrefix_at [OF assms(1)]
  have lt: "off + i < length buf" and ch: "buf ! (off + i) \<noteq> CHR 0x0A"
    by simp_all
  from blankLine_advances [OF assms(2) lt ch] blankLine_length [OF assms(2)]
    blankLine_index [OF assms(2)] lt
  show ?thesis by simp
qed

termination sanitizeFrom
proof (relation "measure (\<lambda>(buf, off). length buf - off)")
  show "wf (measure (\<lambda>(buf, off). length buf - off))" by simp
next
  fix buf off i buf' j
  assume idx: "bytes_Index (drop off buf) linePrefix = Some i"
    and "i = 0 \<or> buf ! (off + i - 1) = CHR 0x0A"
    and bl: "(buf', j) = blankLine buf (off + i)"
  from blankLine_measure [OF idx bl [symmetric]]
  show "((buf', j), (buf, off)) \<in> measure (\<lambda>(buf, off). length buf - off)"
    by simp
next
  fix buf off i
  assume idx: "bytes_Index (drop off buf) linePrefix = Some i"
    and "\<not> (i = 0 \<or> buf ! (off + i - 1) = CHR 0x0A)"
  from linePrefix_at(1) [OF idx]
  show "((buf, off + i + length linePrefix), (buf, off)) \<in> measure (\<lambda>(buf, off). length buf - off)"
    by (simp add: linePrefix_def)
qed

section \<open>The iteration order of a map\<close>

text \<open>
  \<open>go_range\<close> only reorders: whatever the choices, every entry is visited once. And
  every order of the entries is the visit order of some choices, so that the model leaves
  out no run.
\<close>

lemma take_drop_mset:
  "i < length xs \<Longrightarrow> add_mset (xs ! i) (mset (take i xs @ drop (Suc i) xs)) = mset xs"
proof -
  assume "i < length xs"
  then have "xs = take i xs @ xs ! i # drop (Suc i) xs"
    by (rule id_take_nth_drop)
  then have "mset xs = mset (take i xs @ xs ! i # drop (Suc i) xs)"
    by simp
  then show ?thesis by simp
qed

lemma go_range_mset: "mset (go_range cs xs) = mset xs"
proof (induction cs xs rule: go_range.induct)
  case (3 c cs x xs)
  let ?l = "x # xs"
  let ?i = "c mod length ?l"
  have lt: "?i < length ?l" by simp
  from 3 [OF refl] have "mset (go_range cs (take ?i ?l @ drop (Suc ?i) ?l))
      = mset (take ?i ?l @ drop (Suc ?i) ?l)" .
  then have "mset (go_range (c # cs) ?l) = add_mset (?l ! ?i) (mset (take ?i ?l @ drop (Suc ?i) ?l))"
    by (simp add: Let_def)
  also have "\<dots> = mset ?l" using lt by (rule take_drop_mset)
  finally show ?case .
qed simp_all

lemma go_range_set: "set (go_range cs xs) = set xs"
  using go_range_mset [of cs xs] by (metis set_mset_mset)

lemma go_range_Nil: "go_range cs xs = [] \<longleftrightarrow> xs = []"
  using go_range_mset [of cs xs] by (metis mset_zero_iff)

lemma go_range_every_order: "mset ys = mset xs \<Longrightarrow> \<exists>cs. go_range cs xs = ys"
proof (induction ys arbitrary: xs)
  case Nil
  then show ?case by simp
next
  case (Cons y ys)
  from Cons.prems have "y \<in> set xs" by (metis list.set_intros(1) set_mset_mset)
  then obtain i where i: "i < length xs" "xs ! i = y" by (auto simp: in_set_conv_nth)
  let ?r = "take i xs @ drop (Suc i) xs"
  from take_drop_mset [OF i(1)] i(2) Cons.prems
  have "add_mset y (mset ys) = add_mset y (mset ?r)" by simp
  then have "mset ys = mset ?r" by (simp only: add_mset_add_mset_same_iff)
  from Cons.IH [OF this] obtain cs where cs: "go_range cs ?r = ys" ..
  from i(1) obtain x xs' where xs: "xs = x # xs'" by (cases xs) auto
  have "go_range (i # cs) xs = y # ys"
    using i cs unfolding xs by (simp add: Let_def)
  then show ?case ..
qed

section \<open>Claim C5: the sanitizer\<close>

text \<open>
  C5. The claim: the sanitizer blanks exactly the lines that begin, at a true line start,
  with the marker \<open>//line \<close>, and leaves a marker that is not at a line start, and every
  other byte, as they are. The code does not: after it has skipped a marker that is not at
  a line start, it re-slices the buffer behind that marker, and its test \<open>i == 0\<close> then
  takes the start of the slice for the start of a line. On \<open>x//line //line y\<close>, one line
  that starts with \<open>x\<close>, the second marker and the rest of the line are turned into spaces,
  where the documented behaviour (\<open>blankMarkedLines_spec\<close>) leaves the buffer as it is.
\<close>

theorem sanitizer_blanks_marker_behind_skipped_marker:
  "replaceLinePrefixCommentsWithBlankLine ''x//line //line y'' = ''x//line         ''
   \<and> blankMarkedLines_spec ''x//line //line y'' = ''x//line //line y''"
proof
  show "replaceLinePrefixCommentsWithBlankLine ''x//line //line y'' = ''x//line         ''"
    by code_simp
  show "blankMarkedLines_spec ''x//line //line y'' = ''x//line //line y''"
    by code_simp
qed

section \<open>Claim C2: two runs on the same input\<close>

text \<open>
  C2. The claim: for a fixed input and fixed results of reading and parsing, two calls of
  \<open>mapIdentifierToBuildTag\<close> return the same map, the tags of a key joined in the same
  order. The code visits \<open>tagToFiles\<close> with \<open>range\<close> over a Go map, whose order changes
  from run to run. On the input of the repository's own test, the run that visits the tags
  in the order they were entered gives \<open>NewCheersWithBeer\<close> the string the test expects,
  \<open>xtag2, xtag3\<close>, and the run that visits them backwards gives it \<open>xtag3, xtag2\<close>.
\<close>

theorem tag_string_differs_between_runs:
  "tagsAt (mapIdentifierToBuildTag testEnv inOrder testFiles '''' ''/src'' testTags)
     ''NewCheersWithBeer'' = Inr (Some ''xtag2, xtag3'')
   \<and> tagsAt (mapIdentifierToBuildTag testEnv tagsBackwards testFiles '''' ''/src'' testTags)
     ''NewCheersWithBeer'' = Inr (Some ''xtag3, xtag2'')"
proof
  show "tagsAt (mapIdentifierToBuildTag testEnv inOrder testFiles '''' ''/src'' testTags)
     ''NewCheersWithBeer'' = Inr (Some ''xtag2, xtag3'')"
    by code_simp
  show "tagsAt (mapIdentifierToBuildTag testEnv tagsBackwards testFiles '''' ''/src'' testTags)
     ''NewCheersWithBeer'' = Inr (Some ''xtag3, xtag2'')"
    by code_simp
qed

section \<open>Claim C10: getReceiverType\<close>

text \<open>
  C10. \<open>getReceiverType\<close> returns the empty string when the declaration has no receiver
  and when rendering the receiver type fails, and the rendered text otherwise; under the
  precondition that a receiver list that is present is not empty, its read of
  \<open>Recv.List[0]\<close> is in bounds and it returns a string. (On an empty receiver list the
  index expression panics, so the precondition is needed.)
\<close>

theorem getReceiverType_total:
  "(Recv decl = None \<longrightarrow> getReceiverType E decl = Inr '''')
   \<and> (\<forall>f fs err. Recv decl = Some (f # fs) \<and> format_Node E f = Inl err
         \<longrightarrow> getReceiverType E decl = Inr '''')
   \<and> (\<forall>f fs s. Recv decl = Some (f # fs) \<and> format_Node E f = Inr s
         \<longrightarrow> getReceiverType E decl = Inr s)
   \<and> (Recv decl \<noteq> Some [] \<longrightarrow> (\<exists>s. getReceiverType E decl = Inr s))
   \<and> (Recv decl = Some [] \<longrightarrow> getReceiverType E decl = Inl IndexOutOfRange)"
  by (auto simp: getReceiverType_def split: option.splits list.splits sum.splits)

theorem getReceiverType_total_witness:
  "getReceiverType testEnv \<lparr> Name = ''First'', Recv = None \<rparr> = Inr ''''
   \<and> getReceiverType (testEnv \<lparr> format_Node := (\<lambda>e. Inl (ParseError e)) \<rparr>)
        \<lparr> Name = ''String'', Recv = Some [''A''] \<rparr> = Inr ''''
   \<and> getReceiverType testEnv \<lparr> Name = ''String'', Recv = Some [''A''] \<rparr> = Inr ''A''
   \<and> (\<exists>s. getReceiverType testEnv \<lparr> Name = ''String'', Recv = Some [''A''] \<rparr> = Inr s)
   \<and> getReceiverType testEnv \<lparr> Name = ''String'', Recv = Some [] \<rparr> = Inl IndexOutOfRange"
proof -
  have fmt: "format_Node testEnv ''A'' = Inr ''A''"
    by (simp add: testEnv_def memEnv_def)
  show ?thesis
    using getReceiverType_total [of "\<lparr> Name = ''First'', Recv = None \<rparr>" testEnv]
      getReceiverType_total [of "\<lparr> Name = ''String'', Recv = Some [''A''] \<rparr>"
        "testEnv \<lparr> format_Node := (\<lambda>e. Inl (ParseError e)) \<rparr>"]
      getReceiverType_total [of "\<lparr> Name = ''String'', Recv = Some [''A''] \<rparr>" testEnv]
      getReceiverType_total [of "\<lparr> Name = ''String'', Recv = Some [] \<rparr>" testEnv]
      fmt
    by simp
qed

section \<open>The tag extractor\<close>

lemma matchAllowed_eq:
  "matchAllowed t allowed tags = tags @ replicate (count_list allowed t) t"
  by (induction allowed arbitrary: tags) (auto simp: replicate_append_same)

lemma scanTokens_eq:
  "scanTokens ts allowed tags
     = tags @ concat (map (\<lambda>t. replicate (count_list allowed t) t) ts)"
  by (induction ts arbitrary: tags) (simp_all add: matchAllowed_eq)

lemma scanLines_eq:
  "scanLines E ls allowed tags
     = tags @ concat (map (\<lambda>t. replicate (count_list allowed t) t)
         (concat (map (tagsFlag_Set E) (filter (\<lambda>l. strings_Contains l ''+build'') ls))))"
  by (induction ls arbitrary: tags) (simp_all add: scanTokens_eq)

lemma scanGroups_eq:
  "scanGroups E cs allowed tags
     = tags @ concat (map (\<lambda>t. replicate (count_list allowed t) t)
         (concat (map (tagsFlag_Set E)
            (filter (\<lambda>l. strings_Contains l ''+build'') (concat cs)))))"
  by (induction cs arbitrary: tags) (simp_all add: scanLines_eq)

lemma findBuildTags_fst:
  "fst (findBuildTags E file allowed)
     = concat (map (\<lambda>t. replicate (count_list allowed t) t) (directiveTokens E file))"
  by (simp add: findBuildTags_def Let_def scanGroups_eq directiveTokens_def)

lemma findBuildTags_snd:
  "snd (findBuildTags E file allowed) = (fst (findBuildTags E file allowed) \<noteq> [])"
  by (simp add: findBuildTags_def Let_def)

lemma count_list_0_iff: "count_list xs x = 0 \<longleftrightarrow> x \<notin> set xs"
  by (induction xs) auto

lemma findBuildTags_set:
  "set (fst (findBuildTags E file allowed)) = set (directiveTokens E file) \<inter> set allowed"
  by (auto simp: findBuildTags_fst count_list_0_iff)

section \<open>Claim C3: what the tag extractor returns\<close>

text \<open>
  C3, as the claim states it, fails: the list is not deduplicated. A file with the two
  directive lines \<open>// +build xtag1\<close> and \<open>// +build xtag1 xtag2\<close> yields \<open>xtag1\<close>
  twice.
\<close>

theorem findBuildTags_not_deduplicated:
  "\<not> distinct (fst (findBuildTags testEnv
       \<lparr> Comments = [[''// +build xtag1'', ''// +build xtag1 xtag2'']], Decls = [] \<rparr>
       testTags))"
  by code_simp

text \<open>
  C3, amended. The extractor returns the kept tokens in the order in which the directive
  lines of the file mention them, without deduplication: every token of a directive line
  is kept once for each entry of the allowed tags equal to it (so a token that is not
  allowed is dropped, and an allowed tag mentioned on several directive lines occurs
  once per mention). The boolean is true exactly when that list is not empty.
\<close>

theorem findBuildTags_kept_tokens:
  "fst (findBuildTags E file allowed)
     = concat (map (\<lambda>t. replicate (count_list allowed t) t) (directiveTokens E file))
   \<and> snd (findBuildTags E file allowed) = (fst (findBuildTags E file allowed) \<noteq> [])"
  by (simp add: findBuildTags_fst findBuildTags_snd)

section \<open>Claim C7: no directive, no mapping\<close>

lemma findBuildTags_env:
  "tagsFlag_Set E' = tagsFlag_Set E \<Longrightarrow> Comments f' = Comments f
     \<Longrightarrow> findBuildTags E' f' allowed = findBuildTags E f allowed"
  by (simp add: findBuildTags_def scanGroups_eq)

lemma classify_nothing:
  "\<forall>(fName, fAst) \<in> set files. fst (findBuildTags E fAst allowed) = []
     \<Longrightarrow> classify E allowed files tagToFiles = tagToFiles"
proof (induction files arbitrary: tagToFiles)
  case Nil
  then show ?case by simp
next
  case (Cons p files)
  obtain fName fAst where p: "p = (fName, fAst)" by (cases p)
  from Cons.prems p have "fst (findBuildTags E fAst allowed) = []" by simp
  then have "findBuildTags E fAst allowed = ([], False)"
    using findBuildTags_snd [of E fAst allowed] by (cases "findBuildTags E fAst allowed") simp
  with Cons p show ?case by simp
qed

lemma tagToFilesOf_nothing:
  assumes "\<forall>(fName, fAst) \<in> set files. \<forall>t \<in> set (directiveTokens E fAst). t \<notin> set allowed"
  shows "tagToFilesOf E S files allowed = []"
proof -
  have "\<forall>(fName, fAst) \<in> set (go_range (filesOrder S) files).
          fst (findBuildTags E fAst allowed) = []"
  proof (clarify)
    fix fName fAst
    assume "(fName, fAst) \<in> set (go_range (filesOrder S) files)"
    then have "(fName, fAst) \<in> set files" by (simp add: go_range_set)
    with assms have "set (directiveTokens E fAst) \<inter> set allowed = {}" by fastforce
    then have "set (fst (findBuildTags E fAst allowed)) = {}"
      by (simp add: findBuildTags_set)
    then show "fst (findBuildTags E fAst allowed) = []" by simp
  qed
  then show ?thesis
    unfolding tagToFilesOf_def by (rule classify_nothing)
qed

lemma directiveTokens_no_directive:
  "\<forall>c \<in> set (Comments f). \<forall>l \<in> set c. \<not> strings_Contains l ''+build''
     \<Longrightarrow> directiveTokens E f = []"
  by (auto simp: directiveTokens_def filter_empty_conv)

text \<open>
  C7. When no file has a directive line with a token among the allowed tags, and in
  particular when no comment line of any file contains \<open>+build\<close>, the grouping
  \<open>tagToFiles\<close> is empty and \<open>mapIdentifierToBuildTag\<close> returns the empty map and no
  error. Nothing is loaded again: the result is the same whatever reading and parsing
  would return (\<open>rd\<close> and \<open>ps\<close> are arbitrary, and may fail on every path).
\<close>

theorem no_allowed_directive_empty_map:
  "((\<forall>(fName, fAst) \<in> set files. \<forall>t \<in> set (directiveTokens E fAst). t \<notin> set allowed)
      \<longrightarrow> tagToFilesOf E S files allowed = []
          \<and> mapIdentifierToBuildTag E S files relpath abspath allowed = Inr Map.empty
          \<and> (\<forall>rd ps. mapIdentifierToBuildTag
                (E \<lparr> vfs_ReadFile := rd, parser_ParseFile := ps \<rparr>)
                S files relpath abspath allowed = Inr Map.empty))
   \<and> ((\<forall>(fName, fAst) \<in> set files. \<forall>c \<in> set (Comments fAst). \<forall>l \<in> set c.
          \<not> strings_Contains l ''+build'')
      \<longrightarrow> mapIdentifierToBuildTag E S files relpath abspath allowed = Inr Map.empty)"
proof (intro conjI impI allI)
  assume a: "\<forall>(fName, fAst) \<in> set files. \<forall>t \<in> set (directiveTokens E fAst). t \<notin> set allowed"
  from tagToFilesOf_nothing [OF a] show e: "tagToFilesOf E S files allowed = []" .
  then show "mapIdentifierToBuildTag E S files relpath abspath allowed = Inr Map.empty"
    by (simp add: mapIdentifierToBuildTag_def)
  fix rd ps
  let ?E = "E \<lparr> vfs_ReadFile := rd, parser_ParseFile := ps \<rparr>"
  have "directiveTokens ?E f = directiveTokens E f" for f
    by (simp add: directiveTokens_def)
  with a have "\<forall>(fName, fAst) \<in> set files. \<forall>t \<in> set (directiveTokens ?E fAst). t \<notin> set allowed"
    by simp
  from tagToFilesOf_nothing [OF this]
  show "mapIdentifierToBuildTag ?E S files relpath abspath allowed = Inr Map.empty"
    by (simp add: mapIdentifierToBuildTag_def)
next
  assume b: "\<forall>(fName, fAst) \<in> set files. \<forall>c \<in> set (Comments fAst). \<forall>l \<in> set c.
          \<not> strings_Contains l ''+build''"
  have "\<forall>(fName, fAst) \<in> set files. \<forall>t \<in> set (directiveTokens E fAst). t \<notin> set allowed"
  proof (clarify)
    fix fName fAst t
    assume "(fName, fAst) \<in> set files" and t: "t \<in> set (directiveTokens E fAst)"
    with b have "directiveTokens E fAst = []"
      by (intro directiveTokens_no_directive) fastforce
    with t show False by simp
  qed
  from tagToFilesOf_nothing [OF this]
  show "mapIdentifierToBuildTag E S files relpath abspath allowed = Inr Map.empty"
    by (simp add: mapIdentifierToBuildTag_def)
qed

theorem no_allowed_directive_empty_map_witness:
  "tagToFilesOf testEnv inOrder [(''bar.go'', barGo)] testTags = []
   \<and> mapIdentifierToBuildTag testEnv inOrder [(''bar.go'', barGo)] '''' ''/src'' testTags
       = Inr Map.empty
   \<and> mapIdentifierToBuildTag
       (testEnv \<lparr> vfs_ReadFile := (\<lambda>p. Inl (ReadError p)),
                  parser_ParseFile := (\<lambda>p src. Inl (ParseError p)) \<rparr>)
       inOrder [(''bar.go'', barGo)] '''' ''/src'' testTags = Inr Map.empty"
proof -
  have a: "\<forall>(fName, fAst) \<in> set [(''bar.go'', barGo)].
             \<forall>t \<in> set (directiveTokens testEnv fAst). t \<notin> set testTags"
    by code_simp
  have b: "\<forall>(fName, fAst) \<in> set [(''bar.go'', barGo)]. \<forall>c \<in> set (Comments fAst). \<forall>l \<in> set c.
          \<not> strings_Contains l ''+build''"
    by code_simp
  from a b show ?thesis
    using no_allowed_directive_empty_map
      [of "[(''bar.go'', barGo)]" testEnv testTags inOrder "''''" "''/src''"]
    by blast
qed

section \<open>The keys of one declaration\<close>

lemma appendName_upd:
  "\<exists>v. appendName n r tag m = m((if r \<noteq> '''' then r @ ''.'' else '''') @ n \<mapsto> v)"
  unfolding appendName_def Let_def by (rule exI) (rule refl)

lemma appendName_dom:
  "dom (appendName n r tag m) = insert ((if r \<noteq> '''' then r @ ''.'' else '''') @ n) (dom m)"
proof -
  obtain v where "appendName n r tag m = m((if r \<noteq> '''' then r @ ''.'' else '''') @ n \<mapsto> v)"
    using appendName_upd by blast
  then show ?thesis by simp
qed

lemma appendName_other:
  "k \<noteq> (if r \<noteq> '''' then r @ ''.'' else '''') @ n \<Longrightarrow> appendName n r tag m k = m k"
proof -
  assume k: "k \<noteq> (if r \<noteq> '''' then r @ ''.'' else '''') @ n"
  obtain v where "appendName n r tag m = m((if r \<noteq> '''' then r @ ''.'' else '''') @ n \<mapsto> v)"
    using appendName_upd by blast
  with k show ?thesis by simp
qed

lemma walkNames_dom: "dom (walkNames tag ns m) = dom m \<union> set ns"
  by (induction ns arbitrary: m) (simp_all add: appendName_dom)

lemma walkNames_other: "k \<notin> set ns \<Longrightarrow> walkNames tag ns m k = m k"
  by (induction ns arbitrary: m) (simp_all add: appendName_other)

lemma walkSpecs_dom:
  "dom (walkSpecs tag specs m)
     = dom m \<union> {n. TypeSpec n \<in> set specs} \<union> {n. \<exists>ns. ValueSpec ns \<in> set specs \<and> n \<in> set ns}"
proof (induction specs arbitrary: m)
  case Nil
  then show ?case by simp
next
  case (Cons s specs)
  show ?case
  proof (cases s)
    case ImportSpec
    with Cons show ?thesis by auto
  next
    case (TypeSpec n)
    with Cons show ?thesis by (auto simp: appendName_dom)
  next
    case (ValueSpec ns)
    with Cons show ?thesis by (auto simp: walkNames_dom)
  qed
qed

lemma walkSpecs_other:
  "k \<notin> {n. TypeSpec n \<in> set specs} \<union> {n. \<exists>ns. ValueSpec ns \<in> set specs \<and> n \<in> set ns}
     \<Longrightarrow> walkSpecs tag specs m k = m k"
proof (induction specs arbitrary: m)
  case Nil
  then show ?case by simp
next
  case (Cons s specs)
  from Cons.prems
  have rest: "k \<notin> {n. TypeSpec n \<in> set specs} \<union> {n. \<exists>ns. ValueSpec ns \<in> set specs \<and> n \<in> set ns}"
    by auto
  show ?case
  proof (cases s)
    case ImportSpec
    with Cons.IH [OF rest] show ?thesis by simp
  next
    case (TypeSpec n)
    with Cons.prems have "k \<noteq> n" by auto
    with TypeSpec Cons.IH [OF rest] show ?thesis by (simp add: appendName_other)
  next
    case (ValueSpec ns)
    with Cons.prems have "k \<notin> set ns" by auto
    with ValueSpec Cons.IH [OF rest] show ?thesis by (simp add: walkNames_other)
  qed
qed

lemma walkSpecs_imports: "\<forall>s \<in> set specs. s = ImportSpec \<Longrightarrow> walkSpecs tag specs m = m"
  by (induction specs arbitrary: m) auto

text \<open>
  The type switch on one declaration changes the entries of these keys and of no other:
  of a function without receiver its bare name; of a function with a receiver whose
  type renders to the non-empty text \<open>R\<close> the key \<open>R.Name\<close>; of a general
  declaration the name of each of its type specs and every name of each of its value
  specs; of a declaration or a spec of another kind, none.
\<close>

lemma walkDecl_keys:
  "(\<exists>v. walkDecl E tag (FuncDecl \<lparr> Name = n, Recv = None \<rparr>) m = Inr (m(n \<mapsto> v)))
   \<and> (format_Node E f = Inr R \<and> R \<noteq> ''''
        \<longrightarrow> (\<exists>v. walkDecl E tag (FuncDecl \<lparr> Name = n, Recv = Some (f # fs) \<rparr>) m
                    = Inr (m(R @ ''.'' @ n \<mapsto> v)))
            \<and> R @ ''.'' @ n \<noteq> n)
   \<and> (\<exists>m'. walkDecl E tag (GenDecl specs) m = Inr m'
         \<and> dom m' = dom m \<union> {n. TypeSpec n \<in> set specs}
                      \<union> {n. \<exists>ns. ValueSpec ns \<in> set specs \<and> n \<in> set ns}
         \<and> (\<forall>k. k \<notin> {n. TypeSpec n \<in> set specs}
                      \<union> {n. \<exists>ns. ValueSpec ns \<in> set specs \<and> n \<in> set ns}
                \<longrightarrow> m' k = m k))
   \<and> walkDecl E tag BadDecl m = Inr m
   \<and> ((\<forall>s \<in> set specs. s = ImportSpec) \<longrightarrow> walkDecl E tag (GenDecl specs) m = Inr m)"
proof (intro conjI impI)
  show "\<exists>v. walkDecl E tag (FuncDecl \<lparr> Name = n, Recv = None \<rparr>) m = Inr (m(n \<mapsto> v))"
    using appendName_upd [of n "''''" tag m]
    by (simp add: walkDecl_def getReceiverType_def)
next
  assume "format_Node E f = Inr R \<and> R \<noteq> ''''"
  then show "\<exists>v. walkDecl E tag (FuncDecl \<lparr> Name = n, Recv = Some (f # fs) \<rparr>) m
                    = Inr (m(R @ ''.'' @ n \<mapsto> v))"
    using appendName_upd [of n R tag m]
    by (simp add: walkDecl_def getReceiverType_def)
next
  have "length (R @ ''.'' @ n) \<noteq> length n" by simp
  then show "R @ ''.'' @ n \<noteq> n" by metis
next
  show "\<exists>m'. walkDecl E tag (GenDecl specs) m = Inr m'
         \<and> dom m' = dom m \<union> {n. TypeSpec n \<in> set specs}
                      \<union> {n. \<exists>ns. ValueSpec ns \<in> set specs \<and> n \<in> set ns}
         \<and> (\<forall>k. k \<notin> {n. TypeSpec n \<in> set specs}
                      \<union> {n. \<exists>ns. ValueSpec ns \<in> set specs \<and> n \<in> set ns}
                \<longrightarrow> m' k = m k)"
    using walkSpecs_dom [of tag specs m] walkSpecs_other [of _ specs tag m]
    by (simp add: walkDecl_def)
next
  show "walkDecl E tag BadDecl m = Inr m"
    by (simp add: walkDecl_def)
next
  assume "\<forall>s \<in> set specs. s = ImportSpec"
  then show "walkDecl E tag (GenDecl specs) m = Inr m"
    by (simp add: walkDecl_def walkSpecs_imports)
qed

section \<open>Batch loading\<close>

lemma parseFilesFrom_append:
  "parseFilesFrom E relpath abspath (xs @ ys) acc
     = (case parseFilesFrom E relpath abspath xs acc of
          Inl err \<Rightarrow> Inl err
        | Inr m \<Rightarrow> parseFilesFrom E relpath abspath ys m)"
  by (induction xs arbitrary: acc) (simp_all split: sum.splits)

lemma parseFilesFrom_distinct:
  "parseFilesFrom E relpath abspath names acc = Inr m \<Longrightarrow> distinct (map fst acc)
     \<Longrightarrow> distinct (map fst m)"
  by (induction names arbitrary: acc) (auto split: sum.splits simp: distinct_update)

lemma parseFilesFrom_keys:
  "parseFilesFrom E relpath abspath names acc = Inr m
     \<Longrightarrow> fst ` set m = fst ` set acc \<union> path_Join E relpath ` set names"
proof (induction names arbitrary: acc)
  case Nil
  then show ?case by simp
next
  case (Cons f names)
  from Cons.prems obtain t where t: "parseFile E (path_Join E abspath f) = Inr t"
    and rest: "parseFilesFrom E relpath abspath names
        (AList.update (path_Join E relpath f) t acc) = Inr m"
    by (auto split: sum.splits)
  from Cons.IH [OF rest] show ?case by (auto simp: dom_update)
qed

lemma parseFilesFrom_all_parse:
  "parseFilesFrom E relpath abspath names acc = Inr m
     \<Longrightarrow> \<forall>f \<in> set names. \<exists>t. parseFile E (path_Join E abspath f) = Inr t"
  by (induction names arbitrary: acc) (auto split: sum.splits)

lemma parseFilesFrom_other:
  "parseFilesFrom E relpath abspath names acc = Inr m
     \<Longrightarrow> k \<notin> path_Join E relpath ` set names \<Longrightarrow> map_of m k = map_of acc k"
proof (induction names arbitrary: acc)
  case Nil
  then show ?case by simp
next
  case (Cons f names)
  from Cons.prems(1) obtain t where t: "parseFile E (path_Join E abspath f) = Inr t"
    and rest: "parseFilesFrom E relpath abspath names
        (AList.update (path_Join E relpath f) t acc) = Inr m"
    by (auto split: sum.splits)
  from Cons.prems(2) have k: "k \<notin> path_Join E relpath ` set names" "k \<noteq> path_Join E relpath f"
    by auto
  from Cons.IH [OF rest k(1)] k(2) show ?case by (simp add: update_conv')
qed

lemma parseFilesFrom_value:
  "parseFilesFrom E relpath abspath names acc = Inr m \<Longrightarrow> map_of m k = Some t
     \<Longrightarrow> map_of acc k = Some t
         \<or> (\<exists>f \<in> set names. k = path_Join E relpath f \<and> parseFile E (path_Join E abspath f) = Inr t)"
proof (induction names arbitrary: acc)
  case Nil
  then show ?case by simp
next
  case (Cons f names)
  from Cons.prems(1) obtain t' where t': "parseFile E (path_Join E abspath f) = Inr t'"
    and rest: "parseFilesFrom E relpath abspath names
        (AList.update (path_Join E relpath f) t' acc) = Inr m"
    by (auto split: sum.splits)
  from Cons.IH [OF rest Cons.prems(2)]
  show ?case
  proof
    assume "map_of (AList.update (path_Join E relpath f) t' acc) k = Some t"
    then have "(k = path_Join E relpath f \<and> t = t') \<or> map_of acc k = Some t"
      by (auto simp: update_conv' split: if_splits)
    with t' show ?thesis by auto
  next
    assume "\<exists>f \<in> set names. k = path_Join E relpath f
        \<and> parseFile E (path_Join E abspath f) = Inr t"
    then show ?thesis by auto
  qed
qed

lemma parseFilesFrom_last:
  assumes "parseFilesFrom E relpath abspath (pre @ f # post) acc = Inr m"
    and "path_Join E relpath f \<notin> path_Join E relpath ` set post"
  shows "\<exists>t. parseFile E (path_Join E abspath f) = Inr t
           \<and> map_of m (path_Join E relpath f) = Some t"
proof -
  from assms(1) obtain m0 where
    m0: "parseFilesFrom E relpath abspath (f # post) m0 = Inr m"
    by (auto simp: parseFilesFrom_append split: sum.splits)
  then obtain t where t: "parseFile E (path_Join E abspath f) = Inr t"
    and rest: "parseFilesFrom E relpath abspath post
        (AList.update (path_Join E relpath f) t m0) = Inr m"
    by (auto split: sum.splits)
  from parseFilesFrom_other [OF rest assms(2)]
  have "map_of m (path_Join E relpath f) = Some t" by (simp add: update_conv')
  with t show ?thesis by blast
qed

lemma parseFilesFrom_first_failure:
  "\<forall>g \<in> set pre. \<exists>t. parseFile E (path_Join E abspath g) = Inr t
     \<Longrightarrow> parseFile E (path_Join E abspath f) = Inl e
     \<Longrightarrow> parseFilesFrom E relpath abspath (pre @ f # post) acc = Inl e"
  by (induction pre arbitrary: acc) auto

lemma parseFilesFrom_total:
  "\<forall>g \<in> set names. \<exists>t. parseFile E (path_Join E abspath g) = Inr t
     \<Longrightarrow> \<exists>m. parseFilesFrom E relpath abspath names acc = Inr m"
  by (induction names arbitrary: acc) auto

lemma parseFiles_entries:
  assumes "parseFiles E relpath abspath names = Inr m"
  shows "distinct (map fst m)"
    and "fst ` set m = path_Join E relpath ` set names"
    and "(k, t) \<in> set m \<Longrightarrow>
           \<exists>f \<in> set names. k = path_Join E relpath f \<and> parseFile E (path_Join E abspath f) = Inr t"
proof -
  from assms have pf: "parseFilesFrom E relpath abspath names [] = Inr m"
    by (simp add: parseFiles_def)
  from parseFilesFrom_distinct [OF pf] show d: "distinct (map fst m)" by simp
  from parseFilesFrom_keys [OF pf] show "fst ` set m = path_Join E relpath ` set names"
    by simp
  assume "(k, t) \<in> set m"
  with d have "map_of m k = Some t" by simp
  from parseFilesFrom_value [OF pf this]
  show "\<exists>f \<in> set names. k = path_Join E relpath f \<and> parseFile E (path_Join E abspath f) = Inr t"
    by simp
qed

lemma parseFiles_injective:
  assumes "parseFiles E relpath abspath names = Inr m"
    and "inj_on (path_Join E relpath) (set names)" and "f \<in> set names"
  shows "\<exists>t. parseFile E (path_Join E abspath f) = Inr t
           \<and> map_of m (path_Join E relpath f) = Some t"
proof -
  from split_list_last [OF assms(3)] obtain pre post
    where names: "names = pre @ f # post" and f: "f \<notin> set post" by blast
  have "path_Join E relpath f \<notin> path_Join E relpath ` set post"
  proof
    assume "path_Join E relpath f \<in> path_Join E relpath ` set post"
    then obtain g where g: "g \<in> set post" "path_Join E relpath f = path_Join E relpath g"
      by blast
    with names assms(2,3) have "f = g" by (auto dest: inj_onD)
    with f g(1) show False by simp
  qed
  with assms(1) show ?thesis
    unfolding parseFiles_def names by (rule parseFilesFrom_last)
qed

section \<open>The errors of the mapper\<close>

lemma getReceiverType_Inl: "getReceiverType E fd = Inl p \<Longrightarrow> p = IndexOutOfRange"
  by (auto simp: getReceiverType_def split: option.splits list.splits sum.splits)

lemma walkDecl_Inl: "walkDecl E tag d m = Inl p \<Longrightarrow> p = IndexOutOfRange"
  by (auto simp: walkDecl_def split: decl.splits sum.splits dest: getReceiverType_Inl)

lemma walkDecls_Inl: "walkDecls E tag ds m = Inl p \<Longrightarrow> p = IndexOutOfRange"
  by (induction ds arbitrary: m) (auto split: sum.splits dest: walkDecl_Inl)

lemma walkFiles_Inl: "walkFiles E tag asts m = Inl p \<Longrightarrow> p = IndexOutOfRange"
  by (induction asts arbitrary: m) (auto split: sum.splits dest: walkDecls_Inl)

lemma perTag_Inl:
  "perTag E S relpath abspath groups m = Inl err
     \<Longrightarrow> err = IndexOutOfRange
         \<or> (\<exists>(tag, names) \<in> set groups. \<exists>e. parseFiles E relpath abspath names = Inl e
               \<and> err = Errorf e abspath names)"
proof (induction groups arbitrary: m)
  case Nil
  then show ?case by simp
next
  case (Cons g groups)
  obtain tag names where g: "g = (tag, names)" by (cases g)
  show ?case
  proof (cases "parseFiles E relpath abspath names")
    case (Inl e)
    with Cons.prems g show ?thesis by auto
  next
    case (Inr astMap)
    show ?thesis
    proof (cases "walkFiles E tag (go_range (astOrder S tag) astMap) m")
      case (Inl p)
      with Cons.prems g Inr have "err = p" by simp
      with walkFiles_Inl [OF Inl] show ?thesis by simp
    next
      case (Inr m')
      with Cons.prems g \<open>parseFiles E relpath abspath names = Inr astMap\<close>
      have "perTag E S relpath abspath groups m' = Inl err" by simp
      from Cons.IH [OF this] show ?thesis by auto
    qed
  qed
qed

lemma perTag_fails:
  "(tag, names) \<in> set groups \<Longrightarrow> parseFiles E relpath abspath names = Inl e
     \<Longrightarrow> \<exists>err. perTag E S relpath abspath groups m = Inl err"
proof (induction groups arbitrary: m)
  case Nil
  then show ?case by simp
next
  case (Cons g groups)
  obtain tag' names' where g: "g = (tag', names')" by (cases g)
  show ?case
  proof (cases "g = (tag, names)")
    case True
    with Cons.prems g show ?thesis by auto
  next
    case False
    with Cons.prems have "(tag, names) \<in> set groups" by auto
    from Cons.IH [OF this Cons.prems(2)] g show ?thesis
      by (auto split: sum.splits)
  qed
qed

section \<open>No panic on trees whose receiver lists are not empty\<close>

lemma walkDecl_returns:
  "(\<forall>fd. d = FuncDecl fd \<longrightarrow> Recv fd \<noteq> Some []) \<Longrightarrow> \<exists>m'. walkDecl E tag d m = Inr m'"
  by (cases d)
    (auto simp: walkDecl_def getReceiverType_def split: option.splits list.splits sum.splits)

lemma walkDecls_returns:
  "(\<forall>fd. FuncDecl fd \<in> set ds \<longrightarrow> Recv fd \<noteq> Some []) \<Longrightarrow> \<exists>m'. walkDecls E tag ds m = Inr m'"
proof (induction ds arbitrary: m)
  case Nil
  then show ?case by simp
next
  case (Cons d ds)
  from Cons.prems have "\<forall>fd. d = FuncDecl fd \<longrightarrow> Recv fd \<noteq> Some []" by simp
  from walkDecl_returns [OF this] obtain m1 where m1: "walkDecl E tag d m = Inr m1" by blast
  from Cons.prems have "\<forall>fd. FuncDecl fd \<in> set ds \<longrightarrow> Recv fd \<noteq> Some []" by simp
  from Cons.IH [OF this] m1 show ?case by simp
qed

lemma walkFiles_returns:
  "(\<forall>(fName, fileAst) \<in> set asts. \<forall>fd. FuncDecl fd \<in> set (Decls fileAst) \<longrightarrow> Recv fd \<noteq> Some [])
     \<Longrightarrow> \<exists>m'. walkFiles E tag asts m = Inr m'"
proof (induction asts arbitrary: m)
  case Nil
  then show ?case by simp
next
  case (Cons a asts)
  obtain fName fileAst where a: "a = (fName, fileAst)" by (cases a)
  from Cons.prems a have "\<forall>fd. FuncDecl fd \<in> set (Decls fileAst) \<longrightarrow> Recv fd \<noteq> Some []"
    by simp
  from walkDecls_returns [OF this] obtain m1
    where m1: "walkDecls E tag (Decls fileAst) m = Inr m1" by blast
  from Cons.prems
  have "\<forall>(fName, fileAst) \<in> set asts. \<forall>fd. FuncDecl fd \<in> set (Decls fileAst) \<longrightarrow> Recv fd \<noteq> Some []"
    by simp
  from Cons.IH [OF this] m1 a show ?case by simp
qed

lemma parseFile_parsed:
  "parseFile E p = Inr t \<Longrightarrow> \<exists>src. parser_ParseFile E p src = Inr t"
  by (auto simp: parseFile_def split: sum.splits)

lemma walk_loaded_returns:
  assumes wf: "\<forall>p src t fd. parser_ParseFile E p src = Inr t \<and> FuncDecl fd \<in> set (Decls t)
      \<longrightarrow> Recv fd \<noteq> Some []"
    and ok: "parseFiles E relpath abspath names = Inr astMap"
  shows "\<exists>m'. walkFiles E tag (go_range cs astMap) m = Inr m'"
proof (rule walkFiles_returns, clarify)
  fix fName fileAst fd
  assume "(fName, fileAst) \<in> set (go_range cs astMap)"
    and fd: "FuncDecl fd \<in> set (Decls fileAst)" and r: "Recv fd = Some []"
  then have "(fName, fileAst) \<in> set astMap" by (simp add: go_range_set)
  from parseFiles_entries(3) [OF ok this] obtain f
    where "parseFile E (path_Join E abspath f) = Inr fileAst" by blast
  from parseFile_parsed [OF this] obtain src
    where "parser_ParseFile E (path_Join E abspath f) src = Inr fileAst" ..
  with wf fd have "Recv fd \<noteq> Some []" by blast
  with r show False by simp
qed

lemma perTag_Inl_wrapped:
  assumes wf: "\<forall>p src t fd. parser_ParseFile E p src = Inr t \<and> FuncDecl fd \<in> set (Decls t)
      \<longrightarrow> Recv fd \<noteq> Some []"
  shows "perTag E S relpath abspath groups m = Inl err
     \<Longrightarrow> \<exists>(tag, names) \<in> set groups. \<exists>e. parseFiles E relpath abspath names = Inl e
               \<and> err = Errorf e abspath names"
proof (induction groups arbitrary: m)
  case Nil
  then show ?case by simp
next
  case (Cons g groups)
  obtain tag names where g: "g = (tag, names)" by (cases g)
  show ?case
  proof (cases "parseFiles E relpath abspath names")
    case (Inl e)
    with Cons.prems g show ?thesis by auto
  next
    case (Inr astMap)
    from walk_loaded_returns [OF wf Inr] obtain m'
      where "walkFiles E tag (go_range (astOrder S tag) astMap) m = Inr m'" by blast
    with Cons.prems g Inr have "perTag E S relpath abspath groups m' = Inl err" by simp
    from Cons.IH [OF this] show ?thesis by auto
  qed
qed

lemma perTag_returns:
  assumes wf: "\<forall>p src t fd. parser_ParseFile E p src = Inr t \<and> FuncDecl fd \<in> set (Decls t)
      \<longrightarrow> Recv fd \<noteq> Some []"
  shows "\<forall>(tag, names) \<in> set groups. \<exists>astMap. parseFiles E relpath abspath names = Inr astMap
     \<Longrightarrow> \<exists>m'. perTag E S relpath abspath groups m = Inr m'"
proof (induction groups arbitrary: m)
  case Nil
  then show ?case by simp
next
  case (Cons g groups)
  obtain tag names where g: "g = (tag, names)" by (cases g)
  from Cons.prems g obtain astMap where ok: "parseFiles E relpath abspath names = Inr astMap"
    by auto
  from walk_loaded_returns [OF wf ok] obtain m1
    where m1: "walkFiles E tag (go_range (astOrder S tag) astMap) m = Inr m1" by blast
  from Cons.prems
  have "\<forall>(tag, names) \<in> set groups. \<exists>astMap. parseFiles E relpath abspath names = Inr astMap"
    by simp
  from Cons.IH [OF this] g ok m1 show ?case by simp
qed

lemma mapIdentifierToBuildTag_returns:
  assumes "\<forall>p src t fd. parser_ParseFile E p src = Inr t \<and> FuncDecl fd \<in> set (Decls t)
      \<longrightarrow> Recv fd \<noteq> Some []"
    and "\<forall>(tag, names) \<in> set (tagToFilesOf E S files allowed).
      \<exists>astMap. parseFiles E relpath abspath names = Inr astMap"
  shows "\<exists>m. mapIdentifierToBuildTag E S files relpath abspath allowed = Inr m"
proof -
  from assms(2)
  have "\<forall>(tag, names) \<in> set (go_range (tagsOrder S) (tagToFilesOf E S files allowed)).
      \<exists>astMap. parseFiles E relpath abspath names = Inr astMap"
    by (simp add: go_range_set)
  from perTag_returns [OF assms(1) this] show ?thesis
    by (simp add: mapIdentifierToBuildTag_def Let_def)
qed

section \<open>Claim C6: batch loading is fail-fast\<close>

text \<open>
  C6. \<open>parseFiles\<close>: on success the map has exactly the keys \<open>Join(relpath, f)\<close> for
  the names \<open>f\<close> of the list, and each value is the tree parsed from
  \<open>Join(abspath, f)\<close> for a name \<open>f\<close> with that key (for every name, when joining onto
  \<open>relpath\<close> does not map two names of the list to one key); it succeeds when every name
  loads, and when a name fails to load after all names before it loaded, the result is
  that error and no map. \<open>mapIdentifierToBuildTag\<close>: when the re-load of some tag's file
  group fails, the result is an error and no map; and an error it returns is
  \<open>Errorf e abspath fileNames\<close> for a group \<open>fileNames\<close> of \<open>tagToFiles\<close> whose
  re-load failed with \<open>e\<close> (the only other way out is the panic of C10). On trees as
  the parser produces them, where a receiver list that is present is not empty, there is
  no panic: a failing re-load makes the result that wrapped error.
\<close>

theorem batch_loading_fail_fast:
  "(\<forall>m. parseFiles E relpath abspath names = Inr m \<longrightarrow>
       distinct (map fst m)
       \<and> fst ` set m = path_Join E relpath ` set names
       \<and> (\<forall>(k, t) \<in> set m. \<exists>f \<in> set names. k = path_Join E relpath f
              \<and> parseFile E (path_Join E abspath f) = Inr t)
       \<and> (inj_on (path_Join E relpath) (set names) \<longrightarrow>
            (\<forall>f \<in> set names. \<exists>t. parseFile E (path_Join E abspath f) = Inr t
                \<and> map_of m (path_Join E relpath f) = Some t)))
   \<and> ((\<forall>g \<in> set names. \<exists>t. parseFile E (path_Join E abspath g) = Inr t)
        \<longrightarrow> (\<exists>m. parseFiles E relpath abspath names = Inr m))
   \<and> (\<forall>pre f post e. names = pre @ f # post
          \<and> (\<forall>g \<in> set pre. \<exists>t. parseFile E (path_Join E abspath g) = Inr t)
          \<and> parseFile E (path_Join E abspath f) = Inl e
        \<longrightarrow> parseFiles E relpath abspath names = Inl e)
   \<and> ((\<exists>(tag, fileNames) \<in> set (tagToFilesOf E S files allowed).
           \<exists>e. parseFiles E relpath abspath fileNames = Inl e)
        \<longrightarrow> (\<exists>err. mapIdentifierToBuildTag E S files relpath abspath allowed = Inl err))
   \<and> (\<forall>err. mapIdentifierToBuildTag E S files relpath abspath allowed = Inl err
        \<longrightarrow> err = IndexOutOfRange
            \<or> (\<exists>(tag, fileNames) \<in> set (tagToFilesOf E S files allowed).
                  \<exists>e. parseFiles E relpath abspath fileNames = Inl e
                    \<and> err = Errorf e abspath fileNames))
   \<and> ((\<forall>p src t fd. parser_ParseFile E p src = Inr t \<and> FuncDecl fd \<in> set (Decls t)
          \<longrightarrow> Recv fd \<noteq> Some [])
        \<and> (\<exists>(tag, fileNames) \<in> set (tagToFilesOf E S files allowed).
             \<exists>e. parseFiles E relpath abspath fileNames = Inl e)
        \<longrightarrow> (\<exists>(tag, fileNames) \<in> set (tagToFilesOf E S files allowed).
              \<exists>e. parseFiles E relpath abspath fileNames = Inl e
                \<and> mapIdentifierToBuildTag E S files relpath abspath allowed
                    = Inl (Errorf e abspath fileNames)))"
proof (intro conjI allI impI)
  fix m
  assume ok: "parseFiles E relpath abspath names = Inr m"
  from parseFiles_entries(1) [OF ok] show "distinct (map fst m)" .
  from parseFiles_entries(2) [OF ok] show "fst ` set m = path_Join E relpath ` set names" .
  from parseFiles_entries(3) [OF ok]
  show "\<forall>(k, t) \<in> set m. \<exists>f \<in> set names. k = path_Join E relpath f
              \<and> parseFile E (path_Join E abspath f) = Inr t"
    by blast
  assume "inj_on (path_Join E relpath) (set names)"
  with ok show "\<forall>f \<in> set names. \<exists>t. parseFile E (path_Join E abspath f) = Inr t
                \<and> map_of m (path_Join E relpath f) = Some t"
    by (blast intro: parseFiles_injective)
next
  assume "\<forall>g \<in> set names. \<exists>t. parseFile E (path_Join E abspath g) = Inr t"
  then show "\<exists>m. parseFiles E relpath abspath names = Inr m"
    unfolding parseFiles_def by (rule parseFilesFrom_total)
next
  fix pre f post e
  assume "names = pre @ f # post
          \<and> (\<forall>g \<in> set pre. \<exists>t. parseFile E (path_Join E abspath g) = Inr t)
          \<and> parseFile E (path_Join E abspath f) = Inl e"
  then show "parseFiles E relpath abspath names = Inl e"
    by (simp add: parseFiles_def parseFilesFrom_first_failure)
next
  assume "\<exists>(tag, fileNames) \<in> set (tagToFilesOf E S files allowed).
           \<exists>e. parseFiles E relpath abspath fileNames = Inl e"
  then obtain tag fileNames e
    where g: "(tag, fileNames) \<in> set (tagToFilesOf E S files allowed)"
      and e: "parseFiles E relpath abspath fileNames = Inl e"
    by blast
  from g have ne: "tagToFilesOf E S files allowed \<noteq> []" by auto
  from g have "(tag, fileNames) \<in> set (go_range (tagsOrder S) (tagToFilesOf E S files allowed))"
    by (simp add: go_range_set)
  from perTag_fails [OF this e] ne
  show "\<exists>err. mapIdentifierToBuildTag E S files relpath abspath allowed = Inl err"
    by (simp add: mapIdentifierToBuildTag_def)
next
  fix err
  assume "mapIdentifierToBuildTag E S files relpath abspath allowed = Inl err"
  then have "perTag E S relpath abspath
      (go_range (tagsOrder S) (tagToFilesOf E S files allowed)) Map.empty = Inl err"
    by (simp add: mapIdentifierToBuildTag_def Let_def split: if_splits)
  from perTag_Inl [OF this]
  show "err = IndexOutOfRange
            \<or> (\<exists>(tag, fileNames) \<in> set (tagToFilesOf E S files allowed).
                  \<exists>e. parseFiles E relpath abspath fileNames = Inl e
                    \<and> err = Errorf e abspath fileNames)"
    by (simp add: go_range_set)
next
  assume a: "(\<forall>p src t fd. parser_ParseFile E p src = Inr t \<and> FuncDecl fd \<in> set (Decls t)
          \<longrightarrow> Recv fd \<noteq> Some [])
        \<and> (\<exists>(tag, fileNames) \<in> set (tagToFilesOf E S files allowed).
             \<exists>e. parseFiles E relpath abspath fileNames = Inl e)"
  then obtain tag fileNames e
    where g: "(tag, fileNames) \<in> set (tagToFilesOf E S files allowed)"
      and e: "parseFiles E relpath abspath fileNames = Inl e"
    by blast
  from a have wf: "\<forall>p src t fd. parser_ParseFile E p src = Inr t \<and> FuncDecl fd \<in> set (Decls t)
          \<longrightarrow> Recv fd \<noteq> Some []" ..
  from g have ne: "tagToFilesOf E S files allowed \<noteq> []" by auto
  from g have "(tag, fileNames) \<in> set (go_range (tagsOrder S) (tagToFilesOf E S files allowed))"
    by (simp add: go_range_set)
  from perTag_fails [OF this e] obtain err where err: "perTag E S relpath abspath
      (go_range (tagsOrder S) (tagToFilesOf E S files allowed)) Map.empty = Inl err"
    by blast
  from perTag_Inl_wrapped [OF wf err] obtain tag' names' e'
    where "(tag', names') \<in> set (tagToFilesOf E S files allowed)"
      and "parseFiles E relpath abspath names' = Inl e'" and "err = Errorf e' abspath names'"
    by (auto simp: go_range_set)
  with err ne show "\<exists>(tag, fileNames) \<in> set (tagToFilesOf E S files allowed).
              \<exists>e. parseFiles E relpath abspath fileNames = Inl e
                \<and> mapIdentifierToBuildTag E S files relpath abspath allowed
                    = Inl (Errorf e abspath fileNames)"
    by (auto simp: mapIdentifierToBuildTag_def)
qed

theorem batch_loading_fail_fast_witness:
  "distinct (map fst testFiles)
   \<and> (\<exists>t. parseFile testEnv (path_Join testEnv ''/src'' ''xtag1.go'') = Inr t
          \<and> map_of testFiles (path_Join testEnv '''' ''xtag1.go'') = Some t)
   \<and> (\<exists>m. parseFiles testEnv '''' ''/src'' [''bar.go'', ''xtag1.go''] = Inr m)
   \<and> parseFiles testEnv '''' ''/src'' [''xtag1.go'', ''gone.go'', ''xtag2.go'']
        = Inl (ReadError ''/src/gone.go'')
   \<and> (\<exists>err. mapIdentifierToBuildTag testEnv inOrder [(''gone.go'', xtag1Go)] '''' ''/src''
          testTags = Inl err)
   \<and> (\<exists>(tag, fileNames) \<in> set (tagToFilesOf testEnv inOrder [(''gone.go'', xtag1Go)] testTags).
         \<exists>e. parseFiles testEnv '''' ''/src'' fileNames = Inl e
           \<and> Errorf (ReadError ''/src/gone.go'') ''/src'' [''gone.go'']
               = Errorf e ''/src'' fileNames)
   \<and> (\<exists>(tag, fileNames) \<in> set (tagToFilesOf testEnv inOrder [(''gone.go'', xtag1Go)] testTags).
         \<exists>e. parseFiles testEnv '''' ''/src'' fileNames = Inl e
           \<and> mapIdentifierToBuildTag testEnv inOrder [(''gone.go'', xtag1Go)] '''' ''/src'' testTags
               = Inl (Errorf e ''/src'' fileNames))"
proof -
  note T = batch_loading_fail_fast [where E = testEnv and relpath = "''''"
      and abspath = "''/src''" and S = inOrder and files = "[(''gone.go'', xtag1Go)]"
      and allowed = testTags]
  note T1 = T [where names = "[''bar.go'', ''xtag1.go'', ''xtag2.go'']"]
  note T2 = T [where names = "[''xtag1.go'', ''gone.go'', ''xtag2.go'']"]
  note T3 = T [where names = "[''bar.go'', ''xtag1.go'']"]
  have s1: "parseFiles testEnv '''' ''/src'' [''bar.go'', ''xtag1.go'', ''xtag2.go'']
      = Inr testFiles"
    by code_simp
  have s2: "parseFile testEnv (path_Join testEnv ''/src'' ''xtag1.go'') = Inr xtag1Go"
    by code_simp
  have s3: "parseFile testEnv (path_Join testEnv ''/src'' ''gone.go'')
      = Inl (ReadError ''/src/gone.go'')"
    by code_simp
  have s4: "parseFile testEnv (path_Join testEnv ''/src'' ''bar.go'') = Inr barGo"
    by code_simp
  have s5: "tagToFilesOf testEnv inOrder [(''gone.go'', xtag1Go)] testTags
      = [(''xtag1'', [''gone.go''])]"
    by code_simp
  have s6: "parseFiles testEnv '''' ''/src'' [''gone.go''] = Inl (ReadError ''/src/gone.go'')"
    by code_simp
  have s7: "inj_on (path_Join testEnv '''') (set [''bar.go'', ''xtag1.go'', ''xtag2.go''])"
    by (simp add: testEnv_def memEnv_def)
  have "tagsAt (mapIdentifierToBuildTag testEnv inOrder [(''gone.go'', xtag1Go)] '''' ''/src''
      testTags) ''First'' = Inl (Errorf (ReadError ''/src/gone.go'') ''/src'' [''gone.go''])"
    by code_simp
  then have s8: "mapIdentifierToBuildTag testEnv inOrder [(''gone.go'', xtag1Go)] '''' ''/src''
      testTags = Inl (Errorf (ReadError ''/src/gone.go'') ''/src'' [''gone.go''])"
    by (simp add: tagsAt_def split: sum.splits)
  from T1 s1 have a: "distinct (map fst testFiles)"
    by blast
  from T1 s1 s7 have "\<forall>f \<in> set [''bar.go'', ''xtag1.go'', ''xtag2.go''].
      \<exists>t. parseFile testEnv (path_Join testEnv ''/src'' f) = Inr t
        \<and> map_of testFiles (path_Join testEnv '''' f) = Some t"
    by blast
  then have b: "\<exists>t. parseFile testEnv (path_Join testEnv ''/src'' ''xtag1.go'') = Inr t
      \<and> map_of testFiles (path_Join testEnv '''' ''xtag1.go'') = Some t"
    by simp
  have "\<forall>g \<in> set [''bar.go'', ''xtag1.go''].
      \<exists>t. parseFile testEnv (path_Join testEnv ''/src'' g) = Inr t"
    using s2 s4 by simp
  with T3 have c: "\<exists>m. parseFiles testEnv '''' ''/src'' [''bar.go'', ''xtag1.go''] = Inr m"
    by blast
  have "[''xtag1.go'', ''gone.go'', ''xtag2.go''] = [''xtag1.go''] @ ''gone.go'' # [''xtag2.go'']
      \<and> (\<forall>g \<in> set [''xtag1.go'']. \<exists>t. parseFile testEnv (path_Join testEnv ''/src'' g) = Inr t)
      \<and> parseFile testEnv (path_Join testEnv ''/src'' ''gone.go'')
          = Inl (ReadError ''/src/gone.go'')"
    using s2 s3 by simp
  with T2 have d: "parseFiles testEnv '''' ''/src'' [''xtag1.go'', ''gone.go'', ''xtag2.go'']
      = Inl (ReadError ''/src/gone.go'')"
    by blast
  have "\<exists>(tag, fileNames) \<in> set (tagToFilesOf testEnv inOrder [(''gone.go'', xtag1Go)] testTags).
      \<exists>e. parseFiles testEnv '''' ''/src'' fileNames = Inl e"
    using s5 s6 by simp
  with T1 have e: "\<exists>err. mapIdentifierToBuildTag testEnv inOrder [(''gone.go'', xtag1Go)]
      '''' ''/src'' testTags = Inl err"
    by blast
  from T1 s8 have "Errorf (ReadError ''/src/gone.go'') ''/src'' [''gone.go''] = IndexOutOfRange
      \<or> (\<exists>(tag, fileNames) \<in> set (tagToFilesOf testEnv inOrder [(''gone.go'', xtag1Go)] testTags).
         \<exists>e. parseFiles testEnv '''' ''/src'' fileNames = Inl e
           \<and> Errorf (ReadError ''/src/gone.go'') ''/src'' [''gone.go'']
               = Errorf e ''/src'' fileNames)"
    by blast
  then have f: "\<exists>(tag, fileNames) \<in> set (tagToFilesOf testEnv inOrder [(''gone.go'', xtag1Go)] testTags).
         \<exists>e. parseFiles testEnv '''' ''/src'' fileNames = Inl e
           \<and> Errorf (ReadError ''/src/gone.go'') ''/src'' [''gone.go'']
               = Errorf e ''/src'' fileNames"
    by simp
  have wf: "\<forall>p src t fd. parser_ParseFile testEnv p src = Inr t \<and> FuncDecl fd \<in> set (Decls t)
      \<longrightarrow> Recv fd \<noteq> Some []"
    by (auto simp: testEnv_def memEnv_def barGo_def xtag1Go_def xtag2Go_def split: if_splits)
  have "(\<forall>p src t fd. parser_ParseFile testEnv p src = Inr t \<and> FuncDecl fd \<in> set (Decls t)
          \<longrightarrow> Recv fd \<noteq> Some [])
      \<and> (\<exists>(tag, fileNames) \<in> set (tagToFilesOf testEnv inOrder [(''gone.go'', xtag1Go)] testTags).
           \<exists>e. parseFiles testEnv '''' ''/src'' fileNames = Inl e)"
    using wf s5 s6 by simp
  from T1 [THEN conjunct2, THEN conjunct2, THEN conjunct2, THEN conjunct2, THEN conjunct2,
      THEN mp, OF this]
  have g: "\<exists>(tag, fileNames) \<in> set (tagToFilesOf testEnv inOrder [(''gone.go'', xtag1Go)] testTags).
         \<exists>e. parseFiles testEnv '''' ''/src'' fileNames = Inl e
           \<and> mapIdentifierToBuildTag testEnv inOrder [(''gone.go'', xtag1Go)] '''' ''/src'' testTags
               = Inl (Errorf e ''/src'' fileNames)" .
  from a b c d e f g show ?thesis by (intro conjI)
qed

section \<open>The tag groups\<close>

lemma filesOf_update:
  "filesOf (AList.update bt v tagToFiles) tag = (if tag = bt then v else filesOf tagToFiles tag)"
  by (simp add: filesOf_def update_conv')

lemma addFile_filesOf:
  "filesOf (addFile b bts tagToFiles) tag
     = filesOf tagToFiles tag @ replicate (count_list bts tag) b"
proof (induction bts arbitrary: tagToFiles)
  case Nil
  then show ?case by simp
next
  case (Cons bt bts)
  show ?case
    by (simp add: Cons.IH filesOf_update replicate_append_same)
qed

lemma addFile_keys: "fst ` set (addFile b bts tagToFiles) = fst ` set tagToFiles \<union> set bts"
  by (induction bts arbitrary: tagToFiles) (auto simp: dom_update)

lemma addFile_distinct:
  "distinct (map fst tagToFiles) \<Longrightarrow> distinct (map fst (addFile b bts tagToFiles))"
  by (induction bts arbitrary: tagToFiles) (simp_all add: distinct_update)

lemma classify_filesOf:
  "filesOf (classify E allowed files tagToFiles) tag
     = filesOf tagToFiles tag @ groupOf E allowed files tag"
proof (induction files arbitrary: tagToFiles)
  case Nil
  then show ?case by (simp add: groupOf_def)
next
  case (Cons p files)
  obtain fName fAst where p: "p = (fName, fAst)" by (cases p)
  obtain bts ok where r: "findBuildTags E fAst allowed = (bts, ok)"
    by (cases "findBuildTags E fAst allowed")
  from r findBuildTags_snd [of E fAst allowed] have ok: "ok = (bts \<noteq> [])" by simp
  have g: "groupOf E allowed ((fName, fAst) # files) tag
      = replicate (count_list bts tag) (filepath_Base E fName) @ groupOf E allowed files tag"
    using r by (simp add: groupOf_def)
  show ?case
  proof (cases ok)
    case True
    with r show ?thesis unfolding p g by (simp add: Cons.IH addFile_filesOf)
  next
    case False
    with ok have "bts = []" by simp
    with False r show ?thesis unfolding p g by (simp add: Cons.IH)
  qed
qed

lemma classify_keys:
  "fst ` set (classify E allowed files tagToFiles)
     = fst ` set tagToFiles
       \<union> (\<Union>(fName, fAst) \<in> set files. set (fst (findBuildTags E fAst allowed)))"
proof (induction files arbitrary: tagToFiles)
  case Nil
  then show ?case by simp
next
  case (Cons p files)
  obtain fName fAst where p: "p = (fName, fAst)" by (cases p)
  obtain bts ok where r: "findBuildTags E fAst allowed = (bts, ok)"
    by (cases "findBuildTags E fAst allowed")
  from r findBuildTags_snd [of E fAst allowed] have ok: "ok = (bts \<noteq> [])" by simp
  show ?case
  proof (cases ok)
    case True
    with r p show ?thesis by (simp add: Cons.IH addFile_keys Un_assoc)
  next
    case False
    with ok have "bts = []" by simp
    with False r p show ?thesis by (simp add: Cons.IH)
  qed
qed

lemma classify_distinct:
  "distinct (map fst tagToFiles) \<Longrightarrow> distinct (map fst (classify E allowed files tagToFiles))"
proof (induction files arbitrary: tagToFiles)
  case Nil
  then show ?case by simp
next
  case (Cons p files)
  obtain fName fAst where p: "p = (fName, fAst)" by (cases p)
  from Cons.prems show ?case
    unfolding p by (auto intro!: Cons.IH addFile_distinct split: prod.splits)
qed

lemma tagToFilesOf_distinct: "distinct (map fst (tagToFilesOf E S files allowed))"
  unfolding tagToFilesOf_def by (rule classify_distinct) simp

lemma tagToFilesOf_keys:
  "fst ` set (tagToFilesOf E S files allowed)
     = (\<Union>(fName, fAst) \<in> set files. set (fst (findBuildTags E fAst allowed)))"
  by (simp add: tagToFilesOf_def classify_keys go_range_set)

lemma tagToFilesOf_group:
  assumes "(tag, names) \<in> set (tagToFilesOf E S files allowed)"
  shows "names = groupOf E allowed (go_range (filesOrder S) files) tag"
proof -
  from assms tagToFilesOf_distinct [of E S files allowed]
  have "map_of (tagToFilesOf E S files allowed) tag = Some names" by simp
  then have "filesOf (tagToFilesOf E S files allowed) tag = names"
    by (simp add: filesOf_def)
  moreover have "filesOf (tagToFilesOf E S files allowed) tag
      = filesOf [] tag @ groupOf E allowed (go_range (filesOrder S) files) tag"
    unfolding tagToFilesOf_def by (rule classify_filesOf)
  moreover have "filesOf [] tag = []" by (simp add: filesOf_def)
  ultimately show ?thesis by simp
qed

lemma groupOf_set:
  "set (groupOf E allowed files tag)
     = {filepath_Base E fName | fName fAst.
          (fName, fAst) \<in> set files \<and> tag \<in> set (fst (findBuildTags E fAst allowed))}"
proof -
  have "replicate (count_list xs tag) b \<noteq> [] \<longleftrightarrow> tag \<in> set xs" for xs :: "string list" and b :: string
    by (simp add: count_list_0_iff)
  then show ?thesis
    by (fastforce simp: groupOf_def count_list_0_iff split: prod.splits)
qed

lemma one_entry_per_key:
  "distinct (map fst al) \<Longrightarrow> k \<in> fst ` set al
     \<Longrightarrow> length (filter (\<lambda>(k', v). k' = k) al) = 1"
proof (induction al)
  case Nil
  then show ?case by simp
next
  case (Cons p al)
  obtain k' v where p: "p = (k', v)" by (cases p)
  show ?case
  proof (cases "k' = k")
    case True
    with Cons.prems p have "\<forall>q \<in> set al. fst q \<noteq> k" by auto
    then have "filter (\<lambda>(k', v). k' = k) al = []"
      by (auto simp: filter_empty_conv)
    with True p show ?thesis by simp
  next
    case False
    with Cons p show ?thesis by auto
  qed
qed

section \<open>The entries of the result\<close>

lemma joinTags_snoc: "joinTags (ts @ [t]) = addTag (joinTags ts) t"
  by (simp add: joinTags_def)

lemma appendName_entry:
  "appendName n r tag (\<lambda>k. entryOf (T k))
     = (\<lambda>k. entryOf (T k @ replicate (count_list [declKey r n] k) tag))"
proof
  fix k
  have "(case entryOf ts of None \<Rightarrow> '''' | Some s \<Rightarrow> s) = joinTags ts" for ts
    by (simp add: entryOf_def joinTags_def)
  then show "appendName n r tag (\<lambda>k. entryOf (T k)) k
      = entryOf (T k @ replicate (count_list [declKey r n] k) tag)"
    by (simp add: appendName_def Let_def declKey_def joinTags_snoc addTag_def)
      (simp add: entryOf_def joinTags_snoc addTag_def)
qed

lemma entry_twice:
  "(\<lambda>k. entryOf ((T k @ replicate (count_list xs k) tag) @ replicate (count_list ys k) tag))
     = (\<lambda>k. entryOf (T k @ replicate (count_list (xs @ ys) k) tag))"
  by (simp add: replicate_add)

lemma walkNames_entry:
  "walkNames tag ns (\<lambda>k. entryOf (T k))
     = (\<lambda>k. entryOf (T k @ replicate (count_list ns k) tag))"
proof (induction ns arbitrary: T)
  case Nil
  then show ?case by simp
next
  case (Cons n ns)
  have "walkNames tag (n # ns) (\<lambda>k. entryOf (T k))
      = walkNames tag ns (\<lambda>k. entryOf (T k @ replicate (count_list [declKey '''' n] k) tag))"
    by (simp add: appendName_entry)
  also have "\<dots> = (\<lambda>k. entryOf ((T k @ replicate (count_list [declKey '''' n] k) tag)
      @ replicate (count_list ns k) tag))"
    by (rule Cons.IH)
  also have "\<dots> = (\<lambda>k. entryOf (T k @ replicate (count_list ([declKey '''' n] @ ns) k) tag))"
    by (rule entry_twice)
  finally show ?case by (simp add: declKey_def)
qed

lemma walkSpecs_entry:
  "walkSpecs tag specs (\<lambda>k. entryOf (T k))
     = (\<lambda>k. entryOf (T k @ replicate (count_list (concat (map specKeys specs)) k) tag))"
proof (induction specs arbitrary: T)
  case Nil
  then show ?case by simp
next
  case (Cons s specs)
  have "(case s of TypeSpec n \<Rightarrow> appendName n '''' tag (\<lambda>k. entryOf (T k))
         | ValueSpec ns \<Rightarrow> walkNames tag ns (\<lambda>k. entryOf (T k))
         | ImportSpec \<Rightarrow> (\<lambda>k. entryOf (T k)))
      = (\<lambda>k. entryOf (T k @ replicate (count_list (specKeys s) k) tag))"
    by (cases s) (simp_all add: appendName_entry walkNames_entry declKey_def)
  then have "walkSpecs tag (s # specs) (\<lambda>k. entryOf (T k))
      = walkSpecs tag specs (\<lambda>k. entryOf (T k @ replicate (count_list (specKeys s) k) tag))"
    by simp
  also have "\<dots> = (\<lambda>k. entryOf ((T k @ replicate (count_list (specKeys s) k) tag)
      @ replicate (count_list (concat (map specKeys specs)) k) tag))"
    by (rule Cons.IH)
  also have "\<dots> = (\<lambda>k. entryOf (T k
      @ replicate (count_list (specKeys s @ concat (map specKeys specs)) k) tag))"
    by (rule entry_twice)
  finally show ?case by simp
qed

lemma walkDecl_entry:
  "walkDecl E tag d (\<lambda>k. entryOf (T k)) = Inr m
     \<Longrightarrow> m = (\<lambda>k. entryOf (T k @ replicate (count_list (declKeys E d) k) tag))"
  by (cases d)
    (auto simp: walkDecl_def declKeys_def appendName_entry walkSpecs_entry split: sum.splits)

lemma walkDecls_entry:
  "walkDecls E tag ds (\<lambda>k. entryOf (T k)) = Inr m
     \<Longrightarrow> m = (\<lambda>k. entryOf (T k @ replicate (count_list (concat (map (declKeys E) ds)) k) tag))"
proof (induction ds arbitrary: T)
  case Nil
  then show ?case by simp
next
  case (Cons d ds)
  from Cons.prems obtain m1 where m1: "walkDecl E tag d (\<lambda>k. entryOf (T k)) = Inr m1"
    and rest: "walkDecls E tag ds m1 = Inr m"
    by (auto split: sum.splits)
  from rest have "m = (\<lambda>k. entryOf ((T k @ replicate (count_list (declKeys E d) k) tag)
      @ replicate (count_list (concat (map (declKeys E) ds)) k) tag))"
    unfolding walkDecl_entry [OF m1] by (rule Cons.IH)
  then show ?case unfolding entry_twice by simp
qed

lemma walkFiles_entry:
  "walkFiles E tag asts (\<lambda>k. entryOf (T k)) = Inr m
     \<Longrightarrow> m = (\<lambda>k. entryOf (T k
           @ replicate (count_list (concat (map (\<lambda>(fName, fileAst). fileKeys E fileAst) asts)) k) tag))"
proof (induction asts arbitrary: T)
  case Nil
  then show ?case by simp
next
  case (Cons a asts)
  obtain fName fileAst where a: "a = (fName, fileAst)" by (cases a)
  from Cons.prems a obtain m1
    where m1: "walkDecls E tag (Decls fileAst) (\<lambda>k. entryOf (T k)) = Inr m1"
      and rest: "walkFiles E tag asts m1 = Inr m"
    by (auto split: sum.splits)
  from walkDecls_entry [OF m1]
  have m1': "m1 = (\<lambda>k. entryOf (T k @ replicate (count_list (fileKeys E fileAst) k) tag))"
    by (simp add: fileKeys_def)
  from rest have "m = (\<lambda>k. entryOf ((T k @ replicate (count_list (fileKeys E fileAst) k) tag)
      @ replicate (count_list (concat (map (\<lambda>(fName, fileAst). fileKeys E fileAst) asts)) k) tag))"
    unfolding m1' by (rule Cons.IH)
  then show ?case unfolding entry_twice a by simp
qed

lemma count_list_concat_map:
  "count_list (concat (map f xs)) k = sum_list (map (\<lambda>x. count_list (f x) k) xs)"
  by (induction xs) simp_all

lemma sum_list_map_mset:
  "mset xs = mset ys \<Longrightarrow> sum_list (map g xs) = sum_list (map (g :: 'a \<Rightarrow> nat) ys)"
proof -
  assume "mset xs = mset ys"
  then have "mset (map g xs) = mset (map g ys)" by (metis mset_map)
  then show ?thesis by (metis sum_mset_sum_list)
qed

lemma count_keys_go_range:
  "count_list (concat (map f (go_range cs xs))) k = count_list (concat (map f xs)) k"
  unfolding count_list_concat_map by (rule sum_list_map_mset) (rule go_range_mset)

lemma perTag_entry:
  "perTag E S relpath abspath groups (\<lambda>k. entryOf (T k)) = Inr m
     \<Longrightarrow> m = (\<lambda>k. entryOf (T k @ tagsOfKey E relpath abspath groups k))"
proof (induction groups arbitrary: T)
  case Nil
  then show ?case by (simp add: tagsOfKey_def)
next
  case (Cons g groups)
  obtain tagName fileNames where g: "g = (tagName, fileNames)" by (cases g)
  from Cons.prems g obtain astMap m1
    where ok: "parseFiles E relpath abspath fileNames = Inr astMap"
      and m1: "walkFiles E tagName (go_range (astOrder S tagName) astMap) (\<lambda>k. entryOf (T k)) = Inr m1"
      and rest: "perTag E S relpath abspath groups m1 = Inr m"
    by (auto split: sum.splits)
  have c: "count_list (concat (map (\<lambda>(fName, fileAst). fileKeys E fileAst)
        (go_range (astOrder S tagName) astMap))) k = declCount E relpath abspath fileNames k" for k
    by (simp add: declCount_def ok count_keys_go_range)
  from walkFiles_entry [OF m1]
  have m1': "m1 = (\<lambda>k. entryOf (T k @ replicate (declCount E relpath abspath fileNames k) tagName))"
    unfolding c .
  from rest have "m = (\<lambda>k. entryOf ((T k @ replicate (declCount E relpath abspath fileNames k) tagName)
      @ tagsOfKey E relpath abspath groups k))"
    unfolding m1' by (rule Cons.IH)
  then show ?case by (simp add: g tagsOfKey_def)
qed

lemma mapIdentifierToBuildTag_entry:
  assumes "mapIdentifierToBuildTag E S files relpath abspath allowed = Inr m"
  shows "m key = entryOf (tagsOfKey E relpath abspath
           (go_range (tagsOrder S) (tagToFilesOf E S files allowed)) key)"
proof (cases "tagToFilesOf E S files allowed = []")
  case True
  with assms have "m = Map.empty" by (simp add: mapIdentifierToBuildTag_def)
  with True show ?thesis by (simp add: tagsOfKey_def entryOf_def)
next
  case False
  have e: "Map.empty = (\<lambda>k. entryOf ((\<lambda>k. []) k))" by (simp add: entryOf_def)
  from False assms have "perTag E S relpath abspath
      (go_range (tagsOrder S) (tagToFilesOf E S files allowed)) (\<lambda>k. entryOf ((\<lambda>k. []) k)) = Inr m"
    unfolding e [symmetric] by (simp add: mapIdentifierToBuildTag_def)
  from perTag_entry [OF this] show ?thesis by simp
qed

lemma count_list_replicate: "count_list (replicate n x) y = (if x = y then n else 0)"
  by (induction n) auto

lemma count_tagsOfKey:
  "distinct (map fst groups) \<Longrightarrow> (tag, fileNames) \<in> set groups
     \<Longrightarrow> count_list (tagsOfKey E relpath abspath groups key) tag
         = declCount E relpath abspath fileNames key"
proof (induction groups)
  case Nil
  then show ?case by simp
next
  case (Cons g groups)
  obtain t ns where g: "g = (t, ns)" by (cases g)
  have other: "count_list (tagsOfKey E relpath abspath groups key) tag = 0"
    if "tag \<notin> fst ` set groups"
    using that by (force simp: count_list_0_iff tagsOfKey_def)
  have split: "tagsOfKey E relpath abspath (g # groups) key
      = replicate (declCount E relpath abspath ns key) t @ tagsOfKey E relpath abspath groups key"
    by (simp add: tagsOfKey_def g)
  show ?case
  proof (cases "(tag, fileNames) = g")
    case True
    with Cons.prems g have "tag \<notin> fst ` set groups" by auto
    from other [OF this] True g show ?thesis unfolding split by (simp add: count_list_replicate)
  next
    case False
    with Cons.prems have in_rest: "(tag, fileNames) \<in> set groups" by auto
    with Cons.prems g have "t \<noteq> tag" by force
    with Cons.IH in_rest Cons.prems(1) show ?thesis unfolding split by (simp add: count_list_replicate)
  qed
qed

lemma set_tagsOfKey: "set (tagsOfKey E relpath abspath groups key) \<subseteq> fst ` set groups"
  by (force simp: tagsOfKey_def)

lemma foldl_addTag:
  "t \<noteq> [] \<Longrightarrow> [] \<notin> set r \<Longrightarrow> foldl addTag t r = t @ concat (map (\<lambda>x. '', '' @ x) r)"
  by (induction r arbitrary: t) (simp_all add: addTag_def)

lemma joinTags_separated:
  "[] \<notin> set ts
     \<Longrightarrow> joinTags ts = (case ts of [] \<Rightarrow> [] | t # r \<Rightarrow> t @ concat (map (\<lambda>x. '', '' @ x) r))"
proof (cases ts)
  case Nil
  then show ?thesis by (simp add: joinTags_def)
next
  case (Cons t r)
  assume "[] \<notin> set ts"
  with Cons have "t \<noteq> []" and "[] \<notin> set r" by auto
  have j: "joinTags ts = foldl addTag t r"
    using Cons by (simp add: joinTags_def addTag_def)
  have c: "(case ts of [] \<Rightarrow> [] | t # r \<Rightarrow> t @ concat (map (\<lambda>x. '', '' @ x) r))
      = t @ concat (map (\<lambda>x. '', '' @ x) r)"
    unfolding Cons by (rule list.case)
  show ?thesis unfolding j c by (rule foldl_addTag) fact+
qed

section \<open>Claim C1: a tag once per key\<close>

text \<open>
  C1, as the claim states it, fails: \<open>appendName\<close> concatenates and never looks for the
  tag in the string it extends. Two files under \<open>// +build xtag1\<close> that each declare a
  function \<open>init\<close> give the key \<open>init\<close> the string \<open>xtag1, xtag1\<close>.
\<close>

theorem tag_repeated_for_key_in_two_files:
  "tagsAt (mapIdentifierToBuildTag initEnv inOrder initFiles '''' ''/src'' testTags) ''init''
     = Inr (Some ''xtag1, xtag1'')"
  by code_simp

text \<open>
  C1, amended. When the mapping call returns a map, the entry of a key is the string of
  the tags in the order the run visits them, each tag once for every time the key is
  formed in the trees loaded for the tag's file group (\<open>declCount\<close>: a key declared in
  \<open>n\<close> files of the group, or \<open>n\<close> times in one, carries the tag \<open>n\<close> times, and
  exactly once when it is declared once); the key has no entry when it is formed in no
  group. No other tag occurs.
\<close>

theorem tag_once_per_declaration:
  "mapIdentifierToBuildTag E S files relpath abspath allowed = Inr m \<longrightarrow>
     m key = entryOf (tagsOfKey E relpath abspath
        (go_range (tagsOrder S) (tagToFilesOf E S files allowed)) key)
     \<and> (\<forall>(tag, fileNames) \<in> set (tagToFilesOf E S files allowed).
          count_list (tagsOfKey E relpath abspath
            (go_range (tagsOrder S) (tagToFilesOf E S files allowed)) key) tag
          = declCount E relpath abspath fileNames key)
     \<and> (\<forall>tag. tag \<notin> fst ` set (tagToFilesOf E S files allowed) \<longrightarrow>
          count_list (tagsOfKey E relpath abspath
            (go_range (tagsOrder S) (tagToFilesOf E S files allowed)) key) tag = 0)"
proof (intro impI conjI)
  let ?groups = "go_range (tagsOrder S) (tagToFilesOf E S files allowed)"
  assume "mapIdentifierToBuildTag E S files relpath abspath allowed = Inr m"
  then show "m key = entryOf (tagsOfKey E relpath abspath ?groups key)"
    by (rule mapIdentifierToBuildTag_entry)
  have "mset (map fst ?groups) = mset (map fst (tagToFilesOf E S files allowed))"
    by (simp add: go_range_mset)
  then have d: "distinct (map fst ?groups)"
    using tagToFilesOf_distinct [of E S files allowed] by (metis mset_eq_imp_distinct_iff)
  show "\<forall>(tag, fileNames) \<in> set (tagToFilesOf E S files allowed).
          count_list (tagsOfKey E relpath abspath ?groups key) tag
          = declCount E relpath abspath fileNames key"
  proof (clarify)
    fix tag fileNames
    assume "(tag, fileNames) \<in> set (tagToFilesOf E S files allowed)"
    then have "(tag, fileNames) \<in> set ?groups" by (simp add: go_range_set)
    with d show "count_list (tagsOfKey E relpath abspath ?groups key) tag
          = declCount E relpath abspath fileNames key"
      by (rule count_tagsOfKey)
  qed
  show "\<forall>tag. tag \<notin> fst ` set (tagToFilesOf E S files allowed) \<longrightarrow>
          count_list (tagsOfKey E relpath abspath ?groups key) tag = 0"
  proof (intro allI impI)
    fix tag
    assume "tag \<notin> fst ` set (tagToFilesOf E S files allowed)"
    then have "tag \<notin> fst ` set ?groups" by (simp add: go_range_set)
    with set_tagsOfKey [of E relpath abspath ?groups key]
    have "tag \<notin> set (tagsOfKey E relpath abspath ?groups key)" by blast
    then show "count_list (tagsOfKey E relpath abspath ?groups key) tag = 0"
      by (simp add: count_list_0_iff)
  qed
qed

theorem tag_once_per_declaration_witness:
  "(\<exists>m. mapIdentifierToBuildTag initEnv inOrder initFiles '''' ''/src'' testTags = Inr m
      \<and> m ''init'' = entryOf (tagsOfKey initEnv '''' ''/src''
          (go_range (tagsOrder inOrder) (tagToFilesOf initEnv inOrder initFiles testTags)) ''init''))
   \<and> count_list (tagsOfKey initEnv '''' ''/src''
        (go_range (tagsOrder inOrder) (tagToFilesOf initEnv inOrder initFiles testTags)) ''init'')
        ''xtag1''
      = declCount initEnv '''' ''/src'' [''a.go'', ''b.go''] ''init''
   \<and> declCount initEnv '''' ''/src'' [''a.go'', ''b.go''] ''init'' = 2
   \<and> entryOf (tagsOfKey initEnv '''' ''/src''
        (go_range (tagsOrder inOrder) (tagToFilesOf initEnv inOrder initFiles testTags)) ''init'')
      = Some ''xtag1, xtag1''"
proof -
  have "tagsAt (mapIdentifierToBuildTag initEnv inOrder initFiles '''' ''/src'' testTags) ''init''
     = Inr (Some ''xtag1, xtag1'')"
    by code_simp
  then obtain m where m: "mapIdentifierToBuildTag initEnv inOrder initFiles '''' ''/src'' testTags
      = Inr m"
    and v: "m ''init'' = Some ''xtag1, xtag1''"
    by (auto simp: tagsAt_def split: sum.splits)
  note T = tag_once_per_declaration [where E = initEnv and S = inOrder and files = initFiles
      and relpath = "''''" and abspath = "''/src''" and allowed = testTags and m = m
      and key = "''init''", THEN mp, OF m]
  have s1: "tagToFilesOf initEnv inOrder initFiles testTags = [(''xtag1'', [''a.go'', ''b.go''])]"
    by code_simp
  have g: "(''xtag1'', [''a.go'', ''b.go'']) \<in> set (tagToFilesOf initEnv inOrder initFiles testTags)"
    unfolding s1 by simp
  from T have a: "m ''init'' = entryOf (tagsOfKey initEnv '''' ''/src''
          (go_range (tagsOrder inOrder) (tagToFilesOf initEnv inOrder initFiles testTags)) ''init'')"
    by (rule conjunct1)
  from T [THEN conjunct2, THEN conjunct1] g
  have b: "count_list (tagsOfKey initEnv '''' ''/src''
        (go_range (tagsOrder inOrder) (tagToFilesOf initEnv inOrder initFiles testTags)) ''init'')
        ''xtag1''
      = declCount initEnv '''' ''/src'' [''a.go'', ''b.go''] ''init''"
    by blast
  have c: "declCount initEnv '''' ''/src'' [''a.go'', ''b.go''] ''init'' = 2"
    by code_simp
  from a v have d: "entryOf (tagsOfKey initEnv '''' ''/src''
        (go_range (tagsOrder inOrder) (tagToFilesOf initEnv inOrder initFiles testTags)) ''init'')
      = Some ''xtag1, xtag1''"
    by simp
  from m a b c d show ?thesis by blast
qed

section \<open>Claim C8: tokens that are not allowed\<close>

text \<open>
  C8. A token of a directive line that is not among the allowed tags is not among the
  tags the extractor returns; and every entry of the map that
  \<open>mapIdentifierToBuildTag\<close> returns is the string of a non-empty list of tags each of
  which is an allowed tag and a token of a directive line of one of the files, so that
  a token that is not allowed is in no entry.
\<close>

theorem disallowed_tokens_never_appear:
  "(t \<notin> set allowed \<longrightarrow> t \<notin> set (fst (findBuildTags E fAst allowed)))
   \<and> (\<forall>m key v. mapIdentifierToBuildTag E S files relpath abspath allowed = Inr m
          \<and> m key = Some v \<longrightarrow>
        (\<exists>ts. ts \<noteq> [] \<and> v = joinTags ts
           \<and> (\<forall>t' \<in> set ts. t' \<in> set allowed
                 \<and> (\<exists>(fName, fAst) \<in> set files. t' \<in> set (directiveTokens E fAst)))))"
proof (intro conjI allI impI)
  assume "t \<notin> set allowed"
  then show "t \<notin> set (fst (findBuildTags E fAst allowed))"
    by (simp add: findBuildTags_set)
next
  fix m key v
  let ?ts = "tagsOfKey E relpath abspath
      (go_range (tagsOrder S) (tagToFilesOf E S files allowed)) key"
  assume a: "mapIdentifierToBuildTag E S files relpath abspath allowed = Inr m \<and> m key = Some v"
  then have "entryOf ?ts = Some v"
    using mapIdentifierToBuildTag_entry [of E S files relpath abspath allowed m key] by simp
  then have ne: "?ts \<noteq> []" and v: "v = joinTags ?ts"
    by (auto simp: entryOf_def split: if_splits)
  have "set ?ts \<subseteq> fst ` set (tagToFilesOf E S files allowed)"
    using set_tagsOfKey [of E relpath abspath
        "go_range (tagsOrder S) (tagToFilesOf E S files allowed)" key]
    by (simp add: go_range_set)
  then have "\<forall>t' \<in> set ?ts. t' \<in> set allowed
      \<and> (\<exists>(fName, fAst) \<in> set files. t' \<in> set (directiveTokens E fAst))"
    unfolding tagToFilesOf_keys findBuildTags_set by blast
  with ne v show "\<exists>ts. ts \<noteq> [] \<and> v = joinTags ts
           \<and> (\<forall>t' \<in> set ts. t' \<in> set allowed
                 \<and> (\<exists>(fName, fAst) \<in> set files. t' \<in> set (directiveTokens E fAst)))"
    by blast
qed

theorem disallowed_tokens_never_appear_witness:
  "''xtag3'' \<notin> set (fst (findBuildTags testEnv xtag2Go [''xtag1'', ''xtag2'']))
   \<and> (\<exists>ts. ts \<noteq> [] \<and> ''xtag2'' = joinTags ts
         \<and> (\<forall>t' \<in> set ts. t' \<in> set [''xtag1'', ''xtag2'']
               \<and> (\<exists>(fName, fAst) \<in> set testFiles. t' \<in> set (directiveTokens testEnv fAst))))"
proof -
  note T = disallowed_tokens_never_appear [where E = testEnv and S = inOrder
      and files = testFiles and relpath = "''''" and abspath = "''/src''"
      and allowed = "[''xtag1'', ''xtag2'']" and t = "''xtag3''" and fAst = xtag2Go]
  have "tagsAt (mapIdentifierToBuildTag testEnv inOrder testFiles '''' ''/src''
      [''xtag1'', ''xtag2'']) ''NewCheersWithBeer'' = Inr (Some ''xtag2'')"
    by code_simp
  then obtain m where m: "mapIdentifierToBuildTag testEnv inOrder testFiles '''' ''/src''
      [''xtag1'', ''xtag2''] = Inr m \<and> m ''NewCheersWithBeer'' = Some ''xtag2''"
    by (auto simp: tagsAt_def split: sum.splits)
  have n: "''xtag3'' \<notin> set [''xtag1'', ''xtag2'']" by simp
  from T [THEN conjunct1, THEN mp, OF n]
  have a: "''xtag3'' \<notin> set (fst (findBuildTags testEnv xtag2Go [''xtag1'', ''xtag2'']))" .
  from T [THEN conjunct2, THEN spec, THEN spec, THEN spec, THEN mp, OF m]
  have b: "\<exists>ts. ts \<noteq> [] \<and> ''xtag2'' = joinTags ts
         \<and> (\<forall>t' \<in> set ts. t' \<in> set [''xtag1'', ''xtag2'']
               \<and> (\<exists>(fName, fAst) \<in> set testFiles. t' \<in> set (directiveTokens testEnv fAst)))" .
  from a b show ?thesis by (rule conjI)
qed

section \<open>The keys of the returned map\<close>

lemma declKeys_iff:
  "key \<in> set (declKeys E d) \<longleftrightarrow>
     (\<exists>fd. d = FuncDecl fd \<and> Recv fd = None \<and> key = Name fd)
     \<or> (\<exists>fd f fs R. d = FuncDecl fd \<and> Recv fd = Some (f # fs) \<and> format_Node E f = Inr R
           \<and> R \<noteq> '''' \<and> key = R @ ''.'' @ Name fd)
     \<or> (\<exists>fd f fs. d = FuncDecl fd \<and> Recv fd = Some (f # fs)
           \<and> (format_Node E f = Inr '''' \<or> (\<exists>err. format_Node E f = Inl err)) \<and> key = Name fd)
     \<or> (\<exists>specs n. d = GenDecl specs \<and> TypeSpec n \<in> set specs \<and> key = n)
     \<or> (\<exists>specs ns. d = GenDecl specs \<and> ValueSpec ns \<in> set specs \<and> key \<in> set ns)"
proof (cases d)
  case BadDecl
  then show ?thesis by (simp add: declKeys_def)
next
  case (FuncDecl fd)
  show ?thesis
  proof (cases "Recv fd")
    case None
    with FuncDecl show ?thesis
      by (simp add: declKeys_def getReceiverType_def declKey_def)
  next
    case (Some fl)
    show ?thesis
    proof (cases fl)
      case Nil
      with FuncDecl Some show ?thesis
        by (simp add: declKeys_def getReceiverType_def)
    next
      case (Cons f fs)
      show ?thesis
      proof (cases "format_Node E f")
        case (Inl err)
        with FuncDecl Some Cons show ?thesis
          by (simp add: declKeys_def getReceiverType_def declKey_def)
      next
        case (Inr R)
        with FuncDecl Some Cons show ?thesis
          by (cases "R = ''''") (simp_all add: declKeys_def getReceiverType_def declKey_def)
      qed
    qed
  qed
next
  case (GenDecl specs)
  have "key \<in> set (concat (map specKeys specs))
      \<longleftrightarrow> TypeSpec key \<in> set specs \<or> (\<exists>ns. ValueSpec ns \<in> set specs \<and> key \<in> set ns)"
  proof (induction specs)
    case Nil
    then show ?case by simp
  next
    case (Cons s specs)
    then show ?case by (cases s) auto
  qed
  with GenDecl show ?thesis by (simp add: declKeys_def)
qed

lemma tagsOfKey_Nil_iff:
  "tagsOfKey E relpath abspath groups key \<noteq> []
     \<longleftrightarrow> (\<exists>(tag, names) \<in> set groups. declCount E relpath abspath names key \<noteq> 0)"
  by (induction groups) (auto simp: tagsOfKey_def)

lemma declCount_pos_iff:
  "declCount E relpath abspath names key \<noteq> 0
     \<longleftrightarrow> (\<exists>astMap p t d. parseFiles E relpath abspath names = Inr astMap
           \<and> (p, t) \<in> set astMap \<and> d \<in> set (Decls t) \<and> key \<in> set (declKeys E d))"
proof (cases "parseFiles E relpath abspath names")
  case (Inl e)
  then show ?thesis by (simp add: declCount_def)
next
  case (Inr astMap)
  have "count_list (concat (map (\<lambda>(fName, fileAst). fileKeys E fileAst) astMap)) key \<noteq> 0
      \<longleftrightarrow> (\<exists>p t d. (p, t) \<in> set astMap \<and> d \<in> set (Decls t) \<and> key \<in> set (declKeys E d))"
    unfolding count_list_0_iff by (auto simp: fileKeys_def)
  with Inr show ?thesis by (simp add: declCount_def)
qed

lemma dom_mapIdentifierToBuildTag:
  assumes "mapIdentifierToBuildTag E S files relpath abspath allowed = Inr m"
  shows "key \<in> dom m \<longleftrightarrow>
     (\<exists>tag names astMap p t d. (tag, names) \<in> set (tagToFilesOf E S files allowed)
        \<and> parseFiles E relpath abspath names = Inr astMap
        \<and> (p, t) \<in> set astMap \<and> d \<in> set (Decls t) \<and> key \<in> set (declKeys E d))"
proof -
  let ?groups = "go_range (tagsOrder S) (tagToFilesOf E S files allowed)"
  from mapIdentifierToBuildTag_entry [OF assms]
  have "key \<in> dom m \<longleftrightarrow> tagsOfKey E relpath abspath ?groups key \<noteq> []"
    by (simp add: entryOf_def dom_def)
  also have "\<dots> \<longleftrightarrow> (\<exists>(tag, names) \<in> set (tagToFilesOf E S files allowed).
      declCount E relpath abspath names key \<noteq> 0)"
    unfolding tagsOfKey_Nil_iff by (simp add: go_range_set)
  also have "\<dots> \<longleftrightarrow> (\<exists>tag names astMap p t d. (tag, names) \<in> set (tagToFilesOf E S files allowed)
        \<and> parseFiles E relpath abspath names = Inr astMap
        \<and> (p, t) \<in> set astMap \<and> d \<in> set (Decls t) \<and> key \<in> set (declKeys E d))"
    unfolding declCount_pos_iff by blast
  finally show ?thesis .
qed

section \<open>Claim C4: the keys of the declaration walk\<close>

text \<open>
  C4, as the claim states it, fails for a function with a receiver whose type does not
  render: \<open>getReceiverType\<close> then returns the empty string and the key is the bare
  name, the same key as that of a bare function of the same name. In a corpus where
  rendering fails, a file under \<open>// +build xtag1\<close> with a method \<open>String\<close> on \<open>A\<close>
  and a function \<open>String\<close> yields no key \<open>A.String\<close>, and the key \<open>String\<close>
  twice.
\<close>

theorem unrendered_receiver_gives_bare_name:
  "tagsAt (mapIdentifierToBuildTag noRenderEnv inOrder stringFiles '''' ''/src'' testTags)
      ''A.String'' = Inr None
   \<and> tagsAt (mapIdentifierToBuildTag noRenderEnv inOrder stringFiles '''' ''/src'' testTags)
      ''String'' = Inr (Some ''xtag1, xtag1'')"
proof
  show "tagsAt (mapIdentifierToBuildTag noRenderEnv inOrder stringFiles '''' ''/src'' testTags)
      ''A.String'' = Inr None"
    by code_simp
  show "tagsAt (mapIdentifierToBuildTag noRenderEnv inOrder stringFiles '''' ''/src'' testTags)
      ''String'' = Inr (Some ''xtag1, xtag1'')"
    by code_simp
qed

text \<open>
  C4, amended. When \<open>mapIdentifierToBuildTag\<close> returns a map, its keys are exactly the
  keys that the declaration walk forms from the declarations of the files re-loaded for
  the tag groups, and a declaration forms these keys: a function without receiver its
  bare name; a function with a receiver the key \<open>R.Name\<close> when its receiver type
  renders to the non-empty text \<open>R\<close> (a key that differs from the bare name), and the
  bare name when rendering fails or gives the empty text; a general declaration the name
  of each of its type specs and every name listed by each of its value specs. A
  declaration or a spec of another kind forms no key.
\<close>

theorem keys_of_the_declaration_walk:
  "mapIdentifierToBuildTag E S files relpath abspath allowed = Inr m \<longrightarrow>
     (\<forall>key. key \<in> dom m \<longleftrightarrow>
        (\<exists>tag names astMap p t d. (tag, names) \<in> set (tagToFilesOf E S files allowed)
           \<and> parseFiles E relpath abspath names = Inr astMap
           \<and> (p, t) \<in> set astMap \<and> d \<in> set (Decls t)
           \<and> ((\<exists>fd. d = FuncDecl fd \<and> Recv fd = None \<and> key = Name fd)
              \<or> (\<exists>fd f fs R. d = FuncDecl fd \<and> Recv fd = Some (f # fs)
                    \<and> format_Node E f = Inr R \<and> R \<noteq> '''' \<and> key = R @ ''.'' @ Name fd)
              \<or> (\<exists>fd f fs. d = FuncDecl fd \<and> Recv fd = Some (f # fs)
                    \<and> (format_Node E f = Inr '''' \<or> (\<exists>err. format_Node E f = Inl err))
                    \<and> key = Name fd)
              \<or> (\<exists>specs n. d = GenDecl specs \<and> TypeSpec n \<in> set specs \<and> key = n)
              \<or> (\<exists>specs ns. d = GenDecl specs \<and> ValueSpec ns \<in> set specs \<and> key \<in> set ns))))
     \<and> (\<forall>R n. R @ ''.'' @ n \<noteq> (n :: string))"
proof (intro impI conjI allI)
  fix key
  assume "mapIdentifierToBuildTag E S files relpath abspath allowed = Inr m"
  then show "key \<in> dom m \<longleftrightarrow>
        (\<exists>tag names astMap p t d. (tag, names) \<in> set (tagToFilesOf E S files allowed)
           \<and> parseFiles E relpath abspath names = Inr astMap
           \<and> (p, t) \<in> set astMap \<and> d \<in> set (Decls t)
           \<and> ((\<exists>fd. d = FuncDecl fd \<and> Recv fd = None \<and> key = Name fd)
              \<or> (\<exists>fd f fs R. d = FuncDecl fd \<and> Recv fd = Some (f # fs)
                    \<and> format_Node E f = Inr R \<and> R \<noteq> '''' \<and> key = R @ ''.'' @ Name fd)
              \<or> (\<exists>fd f fs. d = FuncDecl fd \<and> Recv fd = Some (f # fs)
                    \<and> (format_Node E f = Inr '''' \<or> (\<exists>err. format_Node E f = Inl err))
                    \<and> key = Name fd)
              \<or> (\<exists>specs n. d = GenDecl specs \<and> TypeSpec n \<in> set specs \<and> key = n)
              \<or> (\<exists>specs ns. d = GenDecl specs \<and> ValueSpec ns \<in> set specs \<and> key \<in> set ns)))"
    unfolding declKeys_iff [symmetric] by (rule dom_mapIdentifierToBuildTag)
next
  fix R n :: string
  have "length (R @ ''.'' @ n) \<noteq> length n" by simp
  then show "R @ ''.'' @ n \<noteq> n" by metis
qed

theorem keys_of_the_declaration_walk_witness:
  "(\<exists>m. mapIdentifierToBuildTag testEnv inOrder testFiles '''' ''/src'' testTags = Inr m
      \<and> ''First'' \<in> dom m \<and> ''A.String'' \<in> dom m \<and> ''A'' \<in> dom m \<and> ''TestConst'' \<in> dom m)
   \<and> (\<exists>m. mapIdentifierToBuildTag noRenderEnv inOrder stringFiles '''' ''/src'' testTags = Inr m
      \<and> ''String'' \<in> dom m)"
proof -
  have "tagsAt (mapIdentifierToBuildTag testEnv inOrder testFiles '''' ''/src'' testTags)
      ''First'' = Inr (Some ''xtag1'')"
    by code_simp
  then obtain m where m: "mapIdentifierToBuildTag testEnv inOrder testFiles '''' ''/src'' testTags
      = Inr m"
    by (auto simp: tagsAt_def split: sum.splits)
  note K = keys_of_the_declaration_walk [where E = testEnv and S = inOrder and files = testFiles
      and relpath = "''''" and abspath = "''/src''" and allowed = testTags and m = m,
      THEN mp, OF m, THEN conjunct1, THEN spec, THEN iffD2]
  have g1: "(''xtag1'', [''xtag1.go'']) \<in> set (tagToFilesOf testEnv inOrder testFiles testTags)"
    by code_simp
  have g2: "(''xtag2'', [''xtag2.go'']) \<in> set (tagToFilesOf testEnv inOrder testFiles testTags)"
    by code_simp
  have p1: "parseFiles testEnv '''' ''/src'' [''xtag1.go''] = Inr [(''xtag1.go'', xtag1Go)]"
    by code_simp
  have p2: "parseFiles testEnv '''' ''/src'' [''xtag2.go''] = Inr [(''xtag2.go'', xtag2Go)]"
    by code_simp
  have e1: "(''xtag1.go'', xtag1Go) \<in> set [(''xtag1.go'', xtag1Go)]" by simp
  have e2: "(''xtag2.go'', xtag2Go) \<in> set [(''xtag2.go'', xtag2Go)]" by simp
  have d1: "FuncDecl \<lparr> Name = ''First'', Recv = None \<rparr> \<in> set (Decls xtag1Go)"
    and d2: "FuncDecl \<lparr> Name = ''String'', Recv = Some [''A''] \<rparr> \<in> set (Decls xtag1Go)"
    and d3: "GenDecl [TypeSpec ''A''] \<in> set (Decls xtag1Go)"
    by (simp_all add: xtag1Go_def)
  have d4: "GenDecl [ValueSpec [''TestConst'']] \<in> set (Decls xtag2Go)"
    by (simp add: xtag2Go_def)
  have fmt: "format_Node testEnv ''A'' = Inr ''A''"
    by (simp add: testEnv_def memEnv_def)
  have k1: "\<exists>fd. FuncDecl \<lparr> Name = ''First'', Recv = None \<rparr> = FuncDecl fd \<and> Recv fd = None
      \<and> ''First'' = Name fd"
    by simp
  have k2: "\<exists>fd f fs R. FuncDecl \<lparr> Name = ''String'', Recv = Some [''A''] \<rparr> = FuncDecl fd
      \<and> Recv fd = Some (f # fs) \<and> format_Node testEnv f = Inr R \<and> R \<noteq> ''''
      \<and> ''A.String'' = R @ ''.'' @ Name fd"
    using fmt by simp
  have k3: "\<exists>specs n. GenDecl [TypeSpec ''A''] = GenDecl specs \<and> TypeSpec n \<in> set specs
      \<and> ''A'' = n"
    by simp
  have k4: "\<exists>specs ns. GenDecl [ValueSpec [''TestConst'']] = GenDecl specs
      \<and> ValueSpec ns \<in> set specs \<and> ''TestConst'' \<in> set ns"
    by simp
  have a1: "''First'' \<in> dom m"
    by (rule K, rule exI [of _ "''xtag1''"], rule exI [of _ "[''xtag1.go'']"],
        rule exI [of _ "[(''xtag1.go'', xtag1Go)]"], rule exI [of _ "''xtag1.go''"],
        rule exI [of _ "xtag1Go"], rule exI [of _ "FuncDecl \<lparr> Name = ''First'', Recv = None \<rparr>"],
        intro conjI, rule g1, rule p1, rule e1, rule d1, rule disjI1, rule k1)
  have a2: "''A.String'' \<in> dom m"
    by (rule K, rule exI [of _ "''xtag1''"], rule exI [of _ "[''xtag1.go'']"],
        rule exI [of _ "[(''xtag1.go'', xtag1Go)]"], rule exI [of _ "''xtag1.go''"],
        rule exI [of _ "xtag1Go"], rule exI [of _ "FuncDecl \<lparr> Name = ''String'', Recv = Some [''A''] \<rparr>"],
        intro conjI, rule g1, rule p1, rule e1, rule d2, rule disjI2, rule disjI1, rule k2)
  have a3: "''A'' \<in> dom m"
    by (rule K, rule exI [of _ "''xtag1''"], rule exI [of _ "[''xtag1.go'']"],
        rule exI [of _ "[(''xtag1.go'', xtag1Go)]"], rule exI [of _ "''xtag1.go''"],
        rule exI [of _ "xtag1Go"], rule exI [of _ "GenDecl [TypeSpec ''A'']"],
        intro conjI, rule g1, rule p1, rule e1, rule d3, rule disjI2, rule disjI2, rule disjI2, rule disjI1, rule k3)
  have a4: "''TestConst'' \<in> dom m"
    by (rule K, rule exI [of _ "''xtag2''"], rule exI [of _ "[''xtag2.go'']"],
        rule exI [of _ "[(''xtag2.go'', xtag2Go)]"], rule exI [of _ "''xtag2.go''"],
        rule exI [of _ "xtag2Go"], rule exI [of _ "GenDecl [ValueSpec [''TestConst'']]"],
        intro conjI, rule g2, rule p2, rule e2, rule d4, rule disjI2, rule disjI2, rule disjI2, rule disjI2, rule k4)
  have "tagsAt (mapIdentifierToBuildTag noRenderEnv inOrder stringFiles '''' ''/src'' testTags)
      ''String'' = Inr (Some ''xtag1, xtag1'')"
    by code_simp
  then obtain m' where m': "mapIdentifierToBuildTag noRenderEnv inOrder stringFiles '''' ''/src''
      testTags = Inr m'"
    by (auto simp: tagsAt_def split: sum.splits)
  note K' = keys_of_the_declaration_walk [where E = noRenderEnv and S = inOrder
      and files = stringFiles and relpath = "''''" and abspath = "''/src''" and allowed = testTags
      and m = m', THEN mp, OF m', THEN conjunct1, THEN spec, THEN iffD2]
  have g3: "(''xtag1'', [''s.go'']) \<in> set (tagToFilesOf noRenderEnv inOrder stringFiles testTags)"
    by code_simp
  have p3: "parseFiles noRenderEnv '''' ''/src'' [''s.go''] = Inr [(''s.go'', stringGo)]"
    by code_simp
  have e3: "(''s.go'', stringGo) \<in> set [(''s.go'', stringGo)]" by simp
  have d5: "FuncDecl \<lparr> Name = ''String'', Recv = Some [''A''] \<rparr> \<in> set (Decls stringGo)"
    by (simp add: stringGo_def)
  have k5: "\<exists>fd f fs. FuncDecl \<lparr> Name = ''String'', Recv = Some [''A''] \<rparr> = FuncDecl fd
      \<and> Recv fd = Some (f # fs)
      \<and> (format_Node noRenderEnv f = Inr '''' \<or> (\<exists>err. format_Node noRenderEnv f = Inl err))
      \<and> ''String'' = Name fd"
    by (simp add: noRenderEnv_def)
  have a5: "''String'' \<in> dom m'"
    by (rule K', rule exI [of _ "''xtag1''"], rule exI [of _ "[''s.go'']"],
        rule exI [of _ "[(''s.go'', stringGo)]"], rule exI [of _ "''s.go''"],
        rule exI [of _ "stringGo"], rule exI [of _ "FuncDecl \<lparr> Name = ''String'', Recv = Some [''A''] \<rparr>"],
        intro conjI, rule g3, rule p3, rule e3, rule d5, rule disjI2, rule disjI2, rule disjI1, rule k5)
  from m a1 a2 a3 a4 m' a5 show ?thesis by blast
qed

section \<open>Claim C9: files are identified by their base names\<close>

lemma parseFilesFrom_fails:
  "f \<in> set names \<Longrightarrow> parseFile E (path_Join E abspath f) = Inl e
     \<Longrightarrow> \<exists>e'. parseFilesFrom E relpath abspath names acc = Inl e'"
proof -
  assume f: "f \<in> set names" and e: "parseFile E (path_Join E abspath f) = Inl e"
  show ?thesis
  proof (cases "parseFilesFrom E relpath abspath names acc")
    case (Inl e')
    then show ?thesis by blast
  next
    case (Inr m)
    from parseFilesFrom_all_parse [OF Inr] f e show ?thesis by auto
  qed
qed

lemma perTag_loaded:
  "perTag E S relpath abspath groups m0 = Inr m \<Longrightarrow> (tag, names) \<in> set groups
     \<Longrightarrow> \<exists>astMap. parseFiles E relpath abspath names = Inr astMap"
proof -
  assume ok: "perTag E S relpath abspath groups m0 = Inr m" and g: "(tag, names) \<in> set groups"
  show ?thesis
  proof (cases "parseFiles E relpath abspath names")
    case (Inl e)
    from perTag_fails [OF g Inl, of S m0] ok show ?thesis by auto
  next
    case (Inr astMap)
    then show ?thesis by blast
  qed
qed

text \<open>
  C9. The file group of a tag holds base names only: it is the list of the base names of
  the keys of \<open>files\<close> whose tree mentions the tag (in the order the run visits
  \<open>files\<close>, once per mention). The mapper loads every group again from
  \<open>Join(abspath, base)\<close>: when that path of a file that mentions a tag cannot be loaded,
  the mapper returns an error; and when it returns a map, every entry is the string of
  the tags of the groups in the order visited, each tag once for every time the key is
  formed in the trees of \<open>parseFiles relpath abspath\<close> on the group, every key of the
  map is formed in a tree loaded from \<open>Join(abspath, base)\<close> for the base name of a key
  of \<open>files\<close>, every tree loaded for a group is stored under \<open>Join(relpath, base)\<close>
  and read from \<open>Join(abspath, base)\<close> for such a base name, and the loaded map has
  exactly one entry for the base name of each file of the group, so that two keys of
  \<open>files\<close> with different directories and one base name give one loaded file.
\<close>

theorem mapper_reloads_by_base_name:
  "(\<forall>tag names. (tag, names) \<in> set (tagToFilesOf E S files allowed) \<longrightarrow>
       names = groupOf E allowed (go_range (filesOrder S) files) tag
       \<and> set names = {filepath_Base E fName | fName fAst.
             (fName, fAst) \<in> set files \<and> tag \<in> set (fst (findBuildTags E fAst allowed))})
   \<and> (\<forall>fName fAst tag e. (fName, fAst) \<in> set files
          \<and> tag \<in> set (fst (findBuildTags E fAst allowed))
          \<and> parseFile E (path_Join E abspath (filepath_Base E fName)) = Inl e
        \<longrightarrow> (\<exists>err. mapIdentifierToBuildTag E S files relpath abspath allowed = Inl err))
   \<and> (\<forall>m. mapIdentifierToBuildTag E S files relpath abspath allowed = Inr m \<longrightarrow>
        (\<forall>key. m key = entryOf (tagsOfKey E relpath abspath
            (go_range (tagsOrder S) (tagToFilesOf E S files allowed)) key))
        \<and> (\<forall>key. key \<in> dom m \<longrightarrow>
             (\<exists>(fName, fAst) \<in> set files. \<exists>t.
                 parseFile E (path_Join E abspath (filepath_Base E fName)) = Inr t
                 \<and> key \<in> set (fileKeys E t)))
        \<and> (\<forall>tag names. (tag, names) \<in> set (tagToFilesOf E S files allowed) \<longrightarrow>
             (\<exists>astMap. parseFiles E relpath abspath names = Inr astMap
                \<and> (\<forall>(k, t) \<in> set astMap. \<exists>(fName, fAst) \<in> set files.
                      tag \<in> set (fst (findBuildTags E fAst allowed))
                      \<and> k = path_Join E relpath (filepath_Base E fName)
                      \<and> parseFile E (path_Join E abspath (filepath_Base E fName)) = Inr t)
                \<and> (\<forall>(fName, fAst) \<in> set files.
                      tag \<in> set (fst (findBuildTags E fAst allowed)) \<longrightarrow>
                      length (filter (\<lambda>(k, t). k = path_Join E relpath (filepath_Base E fName))
                        astMap) = 1)
                \<and> (\<forall>key. count_list (tagsOfKey E relpath abspath
                        (go_range (tagsOrder S) (tagToFilesOf E S files allowed)) key) tag
                      = count_list (concat (map (\<lambda>(k, t). fileKeys E t) astMap)) key))))"
proof -
  let ?ttf = "tagToFilesOf E S files allowed"
  let ?groups = "go_range (tagsOrder S) ?ttf"
  have group: "names = groupOf E allowed (go_range (filesOrder S) files) tag"
    and bases: "set names = {filepath_Base E fName | fName fAst.
             (fName, fAst) \<in> set files \<and> tag \<in> set (fst (findBuildTags E fAst allowed))}"
    if "(tag, names) \<in> set ?ttf" for tag names
  proof -
    from tagToFilesOf_group [OF that]
    show g: "names = groupOf E allowed (go_range (filesOrder S) files) tag" .
    show "set names = {filepath_Base E fName | fName fAst.
             (fName, fAst) \<in> set files \<and> tag \<in> set (fst (findBuildTags E fAst allowed))}"
      unfolding g groupOf_set by (simp add: go_range_set)
  qed
  have in_group: "\<exists>names. (tag, names) \<in> set ?ttf \<and> filepath_Base E fName \<in> set names"
    if "(fName, fAst) \<in> set files" and "tag \<in> set (fst (findBuildTags E fAst allowed))"
    for fName fAst tag
  proof -
    from that have "tag \<in> fst ` set ?ttf" unfolding tagToFilesOf_keys by blast
    then obtain names where g: "(tag, names) \<in> set ?ttf" by auto
    from bases [OF g] that have "filepath_Base E fName \<in> set names" by blast
    with g show ?thesis by blast
  qed
  have fails: "\<exists>err. mapIdentifierToBuildTag E S files relpath abspath allowed = Inl err"
    if f: "(fName, fAst) \<in> set files" and t: "tag \<in> set (fst (findBuildTags E fAst allowed))"
      and e: "parseFile E (path_Join E abspath (filepath_Base E fName)) = Inl e"
    for fName fAst tag e
  proof -
    from in_group [OF f t] obtain names
      where g: "(tag, names) \<in> set ?ttf" and b: "filepath_Base E fName \<in> set names" by blast
    from parseFilesFrom_fails [OF b e] obtain e'
      where e': "parseFiles E relpath abspath names = Inl e'"
      unfolding parseFiles_def by blast
    from g have ne: "?ttf \<noteq> []" by auto
    from g have "(tag, names) \<in> set ?groups" by (simp add: go_range_set)
    from perTag_fails [OF this e'] ne show ?thesis
      by (simp add: mapIdentifierToBuildTag_def)
  qed
  have loaded: "\<exists>astMap. parseFiles E relpath abspath names = Inr astMap"
    if ok: "mapIdentifierToBuildTag E S files relpath abspath allowed = Inr m"
      and g: "(tag, names) \<in> set ?ttf" for m tag names
  proof -
    from g have ne: "?ttf \<noteq> []" by auto
    with ok have p: "perTag E S relpath abspath ?groups Map.empty = Inr m"
      by (simp add: mapIdentifierToBuildTag_def)
    from g have "(tag, names) \<in> set ?groups" by (simp add: go_range_set)
    with p show ?thesis by (rule perTag_loaded)
  qed
  have from_base: "\<exists>(fName, fAst) \<in> set files.
        tag \<in> set (fst (findBuildTags E fAst allowed))
        \<and> k = path_Join E relpath (filepath_Base E fName)
        \<and> parseFile E (path_Join E abspath (filepath_Base E fName)) = Inr t"
    if g: "(tag, names) \<in> set ?ttf" and ok: "parseFiles E relpath abspath names = Inr astMap"
      and kt: "(k, t) \<in> set astMap" for tag names astMap k t
  proof -
    from parseFiles_entries(3) [OF ok kt] obtain f where f: "f \<in> set names"
      "k = path_Join E relpath f" "parseFile E (path_Join E abspath f) = Inr t"
      by blast
    from f(1) bases [OF g] obtain fName fAst where "f = filepath_Base E fName"
      "(fName, fAst) \<in> set files" "tag \<in> set (fst (findBuildTags E fAst allowed))"
      by blast
    with f(2,3) show ?thesis by blast
  qed
  have one: "length (filter (\<lambda>(k, t). k = path_Join E relpath (filepath_Base E fName)) astMap) = 1"
    if g: "(tag, names) \<in> set ?ttf" and ok: "parseFiles E relpath abspath names = Inr astMap"
      and f: "(fName, fAst) \<in> set files" and t: "tag \<in> set (fst (findBuildTags E fAst allowed))"
    for tag names astMap fName fAst
  proof -
    from bases [OF g] f t have "filepath_Base E fName \<in> set names" by blast
    with parseFiles_entries(2) [OF ok]
    have "path_Join E relpath (filepath_Base E fName) \<in> fst ` set astMap" by blast
    with parseFiles_entries(1) [OF ok] show ?thesis by (rule one_entry_per_key)
  qed
  have d: "distinct (map fst ?groups)"
  proof -
    have "mset (map fst ?groups) = mset (map fst ?ttf)" by (simp add: go_range_mset)
    then show ?thesis
      using tagToFilesOf_distinct [of E S files allowed] by (metis mset_eq_imp_distinct_iff)
  qed
  have counts: "count_list (tagsOfKey E relpath abspath ?groups key) tag
      = count_list (concat (map (\<lambda>(k, t). fileKeys E t) astMap)) key"
    if g: "(tag, names) \<in> set ?ttf" and ok: "parseFiles E relpath abspath names = Inr astMap"
    for tag names astMap key
  proof -
    from g have "(tag, names) \<in> set ?groups" by (simp add: go_range_set)
    from count_tagsOfKey [OF d this, of E relpath abspath key]
    show ?thesis by (simp add: declCount_def ok)
  qed
  have key_from_base: "\<exists>(fName, fAst) \<in> set files. \<exists>t.
        parseFile E (path_Join E abspath (filepath_Base E fName)) = Inr t
        \<and> key \<in> set (fileKeys E t)"
    if ok: "mapIdentifierToBuildTag E S files relpath abspath allowed = Inr m"
      and k: "key \<in> dom m" for m key
  proof -
    from dom_mapIdentifierToBuildTag [OF ok, of key] k obtain tag names astMap p t d
      where g: "(tag, names) \<in> set ?ttf" and l: "parseFiles E relpath abspath names = Inr astMap"
        and pt: "(p, t) \<in> set astMap" and dk: "d \<in> set (Decls t)" "key \<in> set (declKeys E d)"
      by blast
    from dk have "key \<in> set (fileKeys E t)" by (auto simp: fileKeys_def)
    with from_base [OF g l pt] show ?thesis by blast
  qed
  show ?thesis
  proof (intro conjI allI impI)
    fix tag names
    assume g: "(tag, names) \<in> set ?ttf"
    from group [OF g] show "names = groupOf E allowed (go_range (filesOrder S) files) tag" .
    from bases [OF g] show "set names = {filepath_Base E fName | fName fAst.
             (fName, fAst) \<in> set files \<and> tag \<in> set (fst (findBuildTags E fAst allowed))}" .
  next
    fix fName fAst tag e
    assume "(fName, fAst) \<in> set files
          \<and> tag \<in> set (fst (findBuildTags E fAst allowed))
          \<and> parseFile E (path_Join E abspath (filepath_Base E fName)) = Inl e"
    then show "\<exists>err. mapIdentifierToBuildTag E S files relpath abspath allowed = Inl err"
      using fails by blast
  next
    fix m key
    assume "mapIdentifierToBuildTag E S files relpath abspath allowed = Inr m"
    then show "m key = entryOf (tagsOfKey E relpath abspath ?groups key)"
      by (rule mapIdentifierToBuildTag_entry)
  next
    fix m key
    assume "mapIdentifierToBuildTag E S files relpath abspath allowed = Inr m" "key \<in> dom m"
    then show "\<exists>(fName, fAst) \<in> set files. \<exists>t.
        parseFile E (path_Join E abspath (filepath_Base E fName)) = Inr t
        \<and> key \<in> set (fileKeys E t)"
      by (rule key_from_base)
  next
    fix m tag names
    assume ok: "mapIdentifierToBuildTag E S files relpath abspath allowed = Inr m"
      and g: "(tag, names) \<in> set ?ttf"
    from loaded [OF ok g] obtain astMap where l: "parseFiles E relpath abspath names = Inr astMap"
      by blast
    have 1: "\<forall>(k, t) \<in> set astMap. \<exists>(fName, fAst) \<in> set files.
                      tag \<in> set (fst (findBuildTags E fAst allowed))
                      \<and> k = path_Join E relpath (filepath_Base E fName)
                      \<and> parseFile E (path_Join E abspath (filepath_Base E fName)) = Inr t"
      using from_base [OF g l] by blast
    have 2: "\<forall>(fName, fAst) \<in> set files.
                      tag \<in> set (fst (findBuildTags E fAst allowed)) \<longrightarrow>
                      length (filter (\<lambda>(k, t). k = path_Join E relpath (filepath_Base E fName))
                        astMap) = 1"
      using one [OF g l] by blast
    have 3: "\<forall>key. count_list (tagsOfKey E relpath abspath ?groups key) tag
                      = count_list (concat (map (\<lambda>(k, t). fileKeys E t) astMap)) key"
      using counts [OF g l] by blast
    from l 1 2 3
    show "\<exists>astMap. parseFiles E relpath abspath names = Inr astMap
                \<and> (\<forall>(k, t) \<in> set astMap. \<exists>(fName, fAst) \<in> set files.
                      tag \<in> set (fst (findBuildTags E fAst allowed))
                      \<and> k = path_Join E relpath (filepath_Base E fName)
                      \<and> parseFile E (path_Join E abspath (filepath_Base E fName)) = Inr t)
                \<and> (\<forall>(fName, fAst) \<in> set files.
                      tag \<in> set (fst (findBuildTags E fAst allowed)) \<longrightarrow>
                      length (filter (\<lambda>(k, t). k = path_Join E relpath (filepath_Base E fName))
                        astMap) = 1)
                \<and> (\<forall>key. count_list (tagsOfKey E relpath abspath ?groups key) tag
                      = count_list (concat (map (\<lambda>(k, t). fileKeys E t) astMap)) key)"
      by (intro exI [of _ astMap] conjI)
  qed
qed

theorem mapper_reloads_by_base_name_witness:
  "[''x.go'', ''x.go'']
     = groupOf sameBaseEnv testTags (go_range (filesOrder inOrder) sameBaseFiles) ''xtag1''
   \<and> (\<exists>err. mapIdentifierToBuildTag sameBaseEnv inOrder [(''a/gone.go'', xtag1Go)] '''' ''/src''
          testTags = Inl err)
   \<and> (\<exists>m. mapIdentifierToBuildTag sameBaseEnv inOrder sameBaseFiles '''' ''/src'' testTags = Inr m
         \<and> m ''First'' = Some ''xtag1''
         \<and> m ''First'' = entryOf (tagsOfKey sameBaseEnv '''' ''/src''
             (go_range (tagsOrder inOrder) (tagToFilesOf sameBaseEnv inOrder sameBaseFiles testTags))
             ''First'')
         \<and> (\<exists>(fName, fAst) \<in> set sameBaseFiles. \<exists>t.
               parseFile sameBaseEnv (path_Join sameBaseEnv ''/src'' (filepath_Base sameBaseEnv fName))
                 = Inr t
               \<and> ''First'' \<in> set (fileKeys sameBaseEnv t)))
   \<and> length (filter
        (\<lambda>(k, t). k = path_Join sameBaseEnv '''' (filepath_Base sameBaseEnv ''a/x.go''))
        [(''x.go'', xtag1Go)]) = 1
   \<and> count_list (tagsOfKey sameBaseEnv '''' ''/src''
        (go_range (tagsOrder inOrder) (tagToFilesOf sameBaseEnv inOrder sameBaseFiles testTags))
        ''First'') ''xtag1''
      = count_list (concat (map (\<lambda>(k, t). fileKeys sameBaseEnv t) [(''x.go'', xtag1Go)])) ''First''"
proof -
  note T = mapper_reloads_by_base_name [where E = sameBaseEnv and S = inOrder
      and files = sameBaseFiles and allowed = testTags and relpath = "''''"
      and abspath = "''/src''"]
  note T' = mapper_reloads_by_base_name [where E = sameBaseEnv and S = inOrder
      and files = "[(''a/gone.go'', xtag1Go)]" and allowed = testTags and relpath = "''''"
      and abspath = "''/src''"]
  have s1: "tagToFilesOf sameBaseEnv inOrder sameBaseFiles testTags
      = [(''xtag1'', [''x.go'', ''x.go''])]"
    by code_simp
  have s2: "parseFiles sameBaseEnv '''' ''/src'' [''x.go'', ''x.go''] = Inr [(''x.go'', xtag1Go)]"
    by code_simp
  have s3: "(''a/x.go'', xtag1Go) \<in> set sameBaseFiles"
    by (simp add: sameBaseFiles_def)
  have s5: "''xtag1'' \<in> set (fst (findBuildTags sameBaseEnv xtag1Go testTags))"
    by code_simp
  have s6: "parseFile sameBaseEnv (path_Join sameBaseEnv ''/src'' (filepath_Base sameBaseEnv ''a/gone.go''))
      = Inl (ReadError ''/src/gone.go'')"
    by code_simp
  have g: "(''xtag1'', [''x.go'', ''x.go''])
      \<in> set (tagToFilesOf sameBaseEnv inOrder sameBaseFiles testTags)"
    unfolding s1 by simp
  from T [THEN conjunct1, THEN spec, THEN spec, THEN mp, OF g]
  have a: "[''x.go'', ''x.go'']
      = groupOf sameBaseEnv testTags (go_range (filesOrder inOrder) sameBaseFiles) ''xtag1''"
    by (rule conjunct1)
  have h: "(''a/gone.go'', xtag1Go) \<in> set [(''a/gone.go'', xtag1Go)]
      \<and> ''xtag1'' \<in> set (fst (findBuildTags sameBaseEnv xtag1Go testTags))
      \<and> parseFile sameBaseEnv (path_Join sameBaseEnv ''/src'' (filepath_Base sameBaseEnv ''a/gone.go''))
          = Inl (ReadError ''/src/gone.go'')"
    using s5 s6 by simp
  from T' [THEN conjunct2, THEN conjunct1, THEN spec, THEN spec, THEN spec, THEN spec, THEN mp,
      OF h]
  have b: "\<exists>err. mapIdentifierToBuildTag sameBaseEnv inOrder [(''a/gone.go'', xtag1Go)] ''''
      ''/src'' testTags = Inl err" .
  have "tagsAt (mapIdentifierToBuildTag sameBaseEnv inOrder sameBaseFiles '''' ''/src'' testTags)
      ''First'' = Inr (Some ''xtag1'')"
    by code_simp
  then obtain m
    where m: "mapIdentifierToBuildTag sameBaseEnv inOrder sameBaseFiles '''' ''/src'' testTags = Inr m"
      and v: "m ''First'' = Some ''xtag1''"
    by (auto simp: tagsAt_def split: sum.splits)
  note P = T [THEN conjunct2, THEN conjunct2, THEN spec, THEN mp, OF m]
  from P [THEN conjunct1, THEN spec, of "''First''"]
  have c1: "m ''First'' = entryOf (tagsOfKey sameBaseEnv '''' ''/src''
             (go_range (tagsOrder inOrder) (tagToFilesOf sameBaseEnv inOrder sameBaseFiles testTags))
             ''First'')" .
  from v have "''First'' \<in> dom m" by auto
  from P [THEN conjunct2, THEN conjunct1, THEN spec, THEN mp, OF this]
  have c2: "\<exists>(fName, fAst) \<in> set sameBaseFiles. \<exists>t.
               parseFile sameBaseEnv (path_Join sameBaseEnv ''/src'' (filepath_Base sameBaseEnv fName))
                 = Inr t
               \<and> ''First'' \<in> set (fileKeys sameBaseEnv t)" .
  from P [THEN conjunct2, THEN conjunct2, THEN spec, THEN spec, THEN mp, OF g] obtain astMap
    where l: "parseFiles sameBaseEnv '''' ''/src'' [''x.go'', ''x.go''] = Inr astMap"
      and one: "\<forall>(fName, fAst) \<in> set sameBaseFiles.
          ''xtag1'' \<in> set (fst (findBuildTags sameBaseEnv fAst testTags)) \<longrightarrow>
          length (filter (\<lambda>(k, t). k = path_Join sameBaseEnv '''' (filepath_Base sameBaseEnv fName))
            astMap) = 1"
      and cnt: "\<forall>key. count_list (tagsOfKey sameBaseEnv '''' ''/src''
          (go_range (tagsOrder inOrder) (tagToFilesOf sameBaseEnv inOrder sameBaseFiles testTags))
          key) ''xtag1''
        = count_list (concat (map (\<lambda>(k, t). fileKeys sameBaseEnv t) astMap)) key"
    by blast
  from l s2 have am: "astMap = [(''x.go'', xtag1Go)]" by simp
  from one s3 s5 have d: "length (filter
        (\<lambda>(k, t). k = path_Join sameBaseEnv '''' (filepath_Base sameBaseEnv ''a/x.go''))
        [(''x.go'', xtag1Go)]) = 1"
    unfolding am by blast
  from cnt have e: "count_list (tagsOfKey sameBaseEnv '''' ''/src''
        (go_range (tagsOrder inOrder) (tagToFilesOf sameBaseEnv inOrder sameBaseFiles testTags))
        ''First'') ''xtag1''
      = count_list (concat (map (\<lambda>(k, t). fileKeys sameBaseEnv t) [(''x.go'', xtag1Go)])) ''First''"
    unfolding am by (rule spec)
  from m v c1 c2 have c: "\<exists>m. mapIdentifierToBuildTag sameBaseEnv inOrder sameBaseFiles '''' ''/src''
        testTags = Inr m
      \<and> m ''First'' = Some ''xtag1''
      \<and> m ''First'' = entryOf (tagsOfKey sameBaseEnv '''' ''/src''
             (go_range (tagsOrder inOrder) (tagToFilesOf sameBaseEnv inOrder sameBaseFiles testTags))
             ''First'')
      \<and> (\<exists>(fName, fAst) \<in> set sameBaseFiles. \<exists>t.
               parseFile sameBaseEnv (path_Join sameBaseEnv ''/src'' (filepath_Base sameBaseEnv fName))
                 = Inr t
               \<and> ''First'' \<in> set (fileKeys sameBaseEnv t))"
    by (intro exI [of _ m] conjI)
  from a b c d e show ?thesis by (intro conjI)
qed

end
